theory Spec2Isabelle
  imports Main "HOL-Library.AList"
begin

section \<open>Regular expressions of the extension\<close>

text \<open>
  The fragment of JavaScript regular expressions that \<^verbatim>\<open>src/extension.ts\<close> uses: literal
  characters, a character class, the word boundary \<^verbatim>\<open>\b\<close>, an optional item, alternation
  and sequencing. Every pattern of the source carries the \<^verbatim>\<open>i\<close> flag and none the
  \<^verbatim>\<open>u\<close> flag: two characters are compared after canonicalisation, which maps the ASCII
  lower-case letters to upper case and leaves every other character alone (a character
  beyond ASCII never equals an ASCII one), and the word characters of \<^verbatim>\<open>\b\<close> are the ASCII
  letters, the digits and the underscore. A line is a string of 8-bit characters.
\<close>

datatype regex =
    Chr char
  | OneOf "char list"
  | Boundary
  | Opt regex
  | Alt regex regex
  | Seq regex regex
  | Eps

primrec lit :: "string \<Rightarrow> regex" where
  "lit [] = Eps"
| "lit (c # cs) = Seq (Chr c) (lit cs)"

definition canonicalize :: "char \<Rightarrow> char" where
  "canonicalize c =
     (let n = (of_char c :: nat)
      in if 97 \<le> n \<and> n \<le> 122 then char_of (n - 32) else c)"

definition isWordChar :: "char \<Rightarrow> bool" where
  "isWordChar c =
     (let n = (of_char c :: nat)
      in (48 \<le> n \<and> n \<le> 57) \<or> (65 \<le> n \<and> n \<le> 90) \<or> (97 \<le> n \<and> n \<le> 122) \<or> n = 95)"

definition wordBefore :: "char option \<Rightarrow> bool" where
  "wordBefore p = (case p of None \<Rightarrow> False | Some c \<Rightarrow> isWordChar c)"

definition wordAfter :: "string \<Rightarrow> bool" where
  "wordAfter s = (case s of [] \<Rightarrow> False | c # _ \<Rightarrow> isWordChar c)"

text \<open>
  Backtracking matcher in continuation style. The position is the character before the
  cursor (none at the start of the line) and the rest of the line; the continuation is
  what has to match after the item.
\<close>

primrec rmatch :: "regex \<Rightarrow> (char option \<Rightarrow> string \<Rightarrow> bool) \<Rightarrow> char option \<Rightarrow> string \<Rightarrow> bool" where
  "rmatch (Chr c) k p s =
     (case s of [] \<Rightarrow> False | x # xs \<Rightarrow> canonicalize x = canonicalize c \<and> k (Some x) xs)"
| "rmatch (OneOf cs) k p s =
     (case s of [] \<Rightarrow> False
      | x # xs \<Rightarrow> canonicalize x \<in> set (map canonicalize cs) \<and> k (Some x) xs)"
| "rmatch Boundary k p s = (wordBefore p \<noteq> wordAfter s \<and> k p s)"
| "rmatch (Opt r) k p s = (rmatch r k p s \<or> k p s)"
| "rmatch (Alt r1 r2) k p s = (rmatch r1 k p s \<or> rmatch r2 k p s)"
| "rmatch (Seq r1 r2) k p s = rmatch r1 (rmatch r2 k) p s"
| "rmatch Eps k p s = k p s"

definition matchHere :: "regex \<Rightarrow> char option \<Rightarrow> string \<Rightarrow> bool" where
  "matchHere r p s = rmatch r (\<lambda>_ _. True) p s"

text \<open>The search of \<^verbatim>\<open>RegExp.prototype.test\<close>: try every start index from the cursor on.\<close>

fun search :: "regex \<Rightarrow> char option \<Rightarrow> string \<Rightarrow> bool" where
  "search r p [] = matchHere r p []"
| "search r p (c # cs) = (matchHere r p (c # cs) \<or> search r (Some c) cs)"

text \<open>
  \<^verbatim>\<open>pattern.test(line)\<close> with \<^verbatim>\<open>lastIndex\<close> at 0: the source resets it before each
  test of a \<^verbatim>\<open>g\<close> pattern, and the patterns of \<^verbatim>\<open>updateStatusBar\<close> have no \<^verbatim>\<open>g\<close> flag.
\<close>

definition test :: "regex \<Rightarrow> string \<Rightarrow> bool" where
  "test r line = search r None line"

section \<open>Log levels\<close>

record LogLevel =
  name :: string
  patterns :: "regex list"

definition wholeWord :: "regex \<Rightarrow> regex" where
  "wholeWord r = Seq Boundary (Seq r Boundary)"

definition keyValue :: "regex \<Rightarrow> regex" where
  "keyValue v =
     Seq (lit ''level'') (Seq (OneOf ''=:'') (Seq (Opt (Chr (CHR 0x22))) (Seq v (Opt (Chr (CHR 0x22))))))"

definition errorPatterns :: "regex list" where
  "errorPatterns =
     [wholeWord (Alt (lit ''ERROR'') (Alt (lit ''FATAL'') (Alt (lit ''CRITICAL'') (lit ''SEVERE'')))),
      lit ''[ERROR]'',
      keyValue (lit ''error'')]"

definition warnPatterns :: "regex list" where
  "warnPatterns =
     [wholeWord (Alt (lit ''WARN'') (lit ''WARNING'')),
      Seq (lit ''[WARN'') (Seq (Opt (lit ''ING'')) (Chr (CHR '']''))),
      keyValue (Seq (lit ''warn'') (Opt (lit ''ing'')))]"

definition infoPatterns :: "regex list" where
  "infoPatterns =
     [wholeWord (lit ''INFO''),
      lit ''[INFO]'',
      keyValue (lit ''info'')]"

definition debugPatterns :: "regex list" where
  "debugPatterns =
     [wholeWord (Alt (lit ''DEBUG'') (Alt (lit ''TRACE'') (lit ''VERBOSE''))),
      lit ''[DEBUG]'',
      keyValue (lit ''debug'')]"

text \<open>
  \<^verbatim>\<open>initializeLogLevels\<close> (lines 71 to 128): the table \<^verbatim>\<open>logLevels\<close> in priority order, each
  level with its three patterns. The decoration type of a level only carries colours for
  the renderer and is left out.
\<close>

definition logLevels :: "LogLevel list" where
  "logLevels =
     [\<lparr>name = ''ERROR'', patterns = errorPatterns\<rparr>,
      \<lparr>name = ''WARN'', patterns = warnPatterns\<rparr>,
      \<lparr>name = ''INFO'', patterns = infoPatterns\<rparr>,
      \<lparr>name = ''DEBUG'', patterns = debugPatterns\<rparr>]"

text \<open>
  The inner loop of \<^verbatim>\<open>applyHighlights\<close> and \<^verbatim>\<open>filterByLevel\<close>: the patterns are tried
  in order and the first that matches ends the loop.
\<close>

fun anyPatternMatches :: "regex list \<Rightarrow> string \<Rightarrow> bool" where
  "anyPatternMatches [] line = False"
| "anyPatternMatches (pat # pats) line =
     (if test pat line then True else anyPatternMatches pats line)"

definition levelMatches :: "LogLevel \<Rightarrow> string \<Rightarrow> bool" where
  "levelMatches level line = anyPatternMatches (patterns level) line"

text \<open>
  \<^verbatim>\<open>applyHighlights\<close> (lines 137 to 162): one decoration batch per level, holding the
  numbers of the lines that the level matches. A document is the list of its lines' texts.
\<close>

definition decorations :: "LogLevel \<Rightarrow> string list \<Rightarrow> nat list" where
  "decorations level doc = filter (\<lambda>lineNum. levelMatches level (doc ! lineNum)) [0..<length doc]"

definition applyHighlights :: "string list \<Rightarrow> (string \<times> nat list) list" where
  "applyHighlights doc = map (\<lambda>level. (name level, decorations level doc)) logLevels"

text \<open>
  The classification of one line in the words of the specification: the match set holds
  every level of the table that matches, the primary level is the first of them.
\<close>

definition matchSet :: "string \<Rightarrow> string list" where
  "matchSet line = map name (filter (\<lambda>level. levelMatches level line) logLevels)"

definition primaryLevel :: "string \<Rightarrow> string option" where
  "primaryLevel line = map_option name (find (\<lambda>level. levelMatches level line) logLevels)"

section \<open>Status bar counts\<close>

record counts =
  errorCount :: nat
  warnCount :: nat
  infoCount :: nat

definition statusError :: regex where
  "statusError = wholeWord (Alt (lit ''ERROR'') (Alt (lit ''FATAL'') (lit ''CRITICAL'')))"

definition statusWarn :: regex where
  "statusWarn = wholeWord (Alt (lit ''WARN'') (lit ''WARNING''))"

definition statusInfo :: regex where
  "statusInfo = wholeWord (lit ''INFO'')"

text \<open>
  \<^verbatim>\<open>updateStatusBar\<close> (lines 164 to 180) tests each line against three patterns written out
  in the function itself, not against the table, and counts in three variables; the status
  bar text and tooltip print these three numbers. \<^verbatim>\<open>countLine\<close> is the body of its loop.
\<close>

definition countLine :: "counts \<Rightarrow> string \<Rightarrow> counts" where
  "countLine c line =
     (if test statusError line then c\<lparr>errorCount := errorCount c + 1\<rparr>
      else if test statusWarn line then c\<lparr>warnCount := warnCount c + 1\<rparr>
      else if test statusInfo line then c\<lparr>infoCount := infoCount c + 1\<rparr>
      else c)"

definition updateStatusBar :: "string list \<Rightarrow> counts" where
  "updateStatusBar doc = foldl countLine \<lparr>errorCount = 0, warnCount = 0, infoCount = 0\<rparr> doc"

text \<open>
  The lines of a text as the editor's document model gives them: a line ends at
  \<^verbatim>\<open>\r\n\<close>, \<^verbatim>\<open>\n\<close> or \<^verbatim>\<open>\r\<close>, and the text after the last line end is a line too,
  also when it is empty.
\<close>

fun splitLines :: "string \<Rightarrow> string \<Rightarrow> string list" where
  "splitLines cur [] = [cur]"
| "splitLines cur [c] =
     (if c = CHR 0x0A \<or> c = CHR 0x0D then [cur, []] else [cur @ [c]])"
| "splitLines cur (c # d # cs) =
     (if c = CHR 0x0D \<and> d = CHR 0x0A then cur # splitLines [] cs
      else if c = CHR 0x0A \<or> c = CHR 0x0D then cur # splitLines [] (d # cs)
      else splitLines (cur @ [c]) (d # cs))"

definition documentLines :: "string \<Rightarrow> string list" where
  "documentLines text = splitLines [] text"

section \<open>Tailing\<close>

subsection \<open>The file system and the editor, as the extension sees them\<close>

type_synonym path = string
type_synonym byte = char

record fileNode =
  content :: "byte list"
  readable :: bool

text \<open>
  A snapshot of the file system: the files that exist, by path. Other processes change
  the files while the extension runs, so a command and a callback are given one snapshot
  for each moment at which they look: one for \<^verbatim>\<open>statSync\<close>, and one for what comes after it
  (\<^verbatim>\<open>openSync\<close> with the read, or \<^verbatim>\<open>fs.watch\<close>).
\<close>

type_synonym filesystem = "path \<rightharpoonup> fileNode"

text \<open>
  The exceptions: of the file system (\<^verbatim>\<open>ENOENT\<close>, \<^verbatim>\<open>EACCES\<close>, and \<^verbatim>\<open>ENOSPC\<close> when the system
  has no watch left to give), of \<^verbatim>\<open>Buffer.alloc\<close> for a size beyond its limit, of
  \<^verbatim>\<open>readSync\<close> for a length out of range (with the length it received), of
  \<^verbatim>\<open>buffer.toString\<close> for a buffer that is too long for a string, and of a close that
  fails.
\<close>

datatype error =
    ENOENT path
  | EACCES path
  | ENOSPC path
  | ERR_BUFFER_SIZE nat
  | ERR_OUT_OF_RANGE int
  | ERR_STRING_TOO_LONG
  | CloseError nat

datatype eventType = Change | Rename

text \<open>
  The calls to \<^verbatim>\<open>fs\<close> in the order they are made. \<^verbatim>\<open>ReadSync p len pos\<close> is the read of
  \<^verbatim>\<open>len\<close> bytes at position \<^verbatim>\<open>pos\<close> through a descriptor of \<^verbatim>\<open>p\<close>.
\<close>

datatype fsCall =
    StatSync path
  | Watch path
  | OpenSync path
  | ReadSync path int nat
  | CloseSync path
  | CloseWatcher nat

text \<open>A JavaScript string is the list of its UTF-16 code units.\<close>

type_synonym jsString = "nat list"

text \<open>
  What the user is shown. \<^verbatim>\<open>Append s\<close> is \<^verbatim>\<open>outputChannel.append(s)\<close>; the other
  constructors are the fixed texts of the source, with the path whose base name they
  print.
\<close>

datatype shown =
    Append jsString
  | TruncatedNotice
  | Clear
  | TailingHeader path
  | Show
  | InfoStopped path
  | InfoTailing path
  | WarnOpenLogFirst

record document =
  fileName :: path
  languageId :: string

text \<open>
  \<^verbatim>\<open>isLogFile\<close> (lines 130 to 135). Lower case is taken on the ASCII letters; what
  \<^verbatim>\<open>toLowerCase\<close> does to other characters makes no difference to the two suffix tests.
\<close>

definition toLowerCase :: "string \<Rightarrow> string" where
  "toLowerCase s =
     map (\<lambda>c. let n = (of_char c :: nat) in if 65 \<le> n \<and> n \<le> 90 then char_of (n + 32) else c) s"

definition endsWith :: "string \<Rightarrow> string \<Rightarrow> bool" where
  "endsWith s suf = (length suf \<le> length s \<and> drop (length s - length suf) s = suf)"

definition isLogFile :: "document \<Rightarrow> bool" where
  "isLogFile doc =
     (endsWith (toLowerCase (fileName doc)) ''.log'' \<or>
      endsWith (toLowerCase (fileName doc)) ''.logs'' \<or>
      languageId doc = ''log'')"

subsection \<open>State\<close>

text \<open>
  An open \<^verbatim>\<open>FSWatcher\<close> is the closure of its callback: the path it watches and the
  variable \<^verbatim>\<open>lastSize\<close>. Watchers are told apart by a handle, the number they were
  created under.
\<close>

record watcher =
  filePath :: path
  lastSize :: nat

text \<open>
  \<^verbatim>\<open>tailWatchers\<close> is the \<^verbatim>\<open>Map\<close> of the source in insertion order, from a path to the handle
  of its watcher; \<^verbatim>\<open>watchers\<close> holds the watchers that are open, \<^verbatim>\<open>channel\<close> what has been
  shown and \<^verbatim>\<open>calls\<close> the file system calls made, both oldest first.
\<close>

record state =
  tailWatchers :: "(path \<times> nat) list"
  watchers :: "(nat \<times> watcher) list"
  nextHandle :: nat
  channel :: "shown list"
  calls :: "fsCall list"

definition initState :: state where
  "initState = \<lparr>tailWatchers = [], watchers = [], nextHandle = 0, channel = [], calls = []\<rparr>"

definition has :: "(path \<times> nat) list \<Rightarrow> path \<Rightarrow> bool" where
  "has m p = (map_of m p \<noteq> None)"

definition emit :: "shown list \<Rightarrow> state \<Rightarrow> state" where
  "emit os st = st\<lparr>channel := channel st @ os\<rparr>"

definition called :: "fsCall list \<Rightarrow> state \<Rightarrow> state" where
  "called cs st = st\<lparr>calls := calls st @ cs\<rparr>"

subsection \<open>File system operations\<close>

definition statSync :: "filesystem \<Rightarrow> path \<Rightarrow> error + nat" where
  "statSync fs p = (case fs p of None \<Rightarrow> Inl (ENOENT p) | Some f \<Rightarrow> Inr (length (content f)))"

definition openSync :: "filesystem \<Rightarrow> path \<Rightarrow> error + fileNode" where
  "openSync fs p =
     (case fs p of None \<Rightarrow> Inl (ENOENT p)
      | Some f \<Rightarrow> if readable f then Inr f else Inl (EACCES p))"

text \<open>
  \<^verbatim>\<open>fs.watch(p, callback)\<close>: it needs the file to exist and to be readable, and a watch of
  the operating system, which has none left when \<^verbatim>\<open>watchFull\<close> holds.
\<close>

definition watch :: "bool \<Rightarrow> filesystem \<Rightarrow> path \<Rightarrow> error option" where
  "watch watchFull fs p =
     (case fs p of None \<Rightarrow> Some (ENOENT p)
      | Some f \<Rightarrow>
          if \<not> readable f then Some (EACCES p)
          else if watchFull then Some (ENOSPC p)
          else None)"

text \<open>
  The limits of the runtime, with the values of 64-bit Node.js 18 and 20:
  \<^verbatim>\<open>buffer.constants.MAX_LENGTH\<close> and \<^verbatim>\<open>buffer.constants.MAX_STRING_LENGTH\<close>.
  \<^verbatim>\<open>Buffer.alloc(len)\<close> gives a zero-filled buffer of \<^verbatim>\<open>len\<close> bytes, or throws beyond the
  first limit.
\<close>

definition kMaxLength :: nat where
  "kMaxLength = 2 ^ 32"

definition kMaxStringLength :: nat where
  "kMaxStringLength = 2 ^ 29 - 24"

definition bufferAlloc :: "nat \<Rightarrow> error + nat" where
  "bufferAlloc len = (if len > kMaxLength then Inl (ERR_BUFFER_SIZE len) else Inr len)"

text \<open>
  \<^verbatim>\<open>readSync(fd, buffer, 0, len, pos)\<close> on the zero-filled buffer of \<^verbatim>\<open>len\<close> bytes.
  \<^verbatim>\<open>readSync\<close> takes its length as a 32-bit signed integer (\<^verbatim>\<open>length |= 0\<close>): a length that
  wraps to zero reads nothing, one that wraps to a negative number throws, and otherwise
  the buffer receives the bytes the file has from \<^verbatim>\<open>pos\<close> on, at most as many as the
  wrapped length. The result is the buffer after the read.
\<close>

definition toInt32 :: "nat \<Rightarrow> int" where
  "toInt32 n = (int n + 2 ^ 31) mod 2 ^ 32 - 2 ^ 31"

definition readSync :: "fileNode \<Rightarrow> nat \<Rightarrow> nat \<Rightarrow> error + byte list" where
  "readSync f len pos =
     (let n = toInt32 len in
      if n = 0 then Inr (replicate len (CHR 0x00))
      else if n < 0 then Inl (ERR_OUT_OF_RANGE n)
      else
        let got = take (nat n) (drop pos (content f))
        in Inr (got @ replicate (len - length got) (CHR 0x00)))"

text \<open>
  \<^verbatim>\<open>buffer.toString('utf-8')\<close>. The decoder is the one of the Encoding Standard: a byte
  that cannot start or continue a character gives U+FFFD, a character cut short gives
  one U+FFFD and the byte that cut it is read again as a first byte, and the byte order
  mark is kept. The state of the decoder is either \<^verbatim>\<open>Start\<close> or, inside a character, the
  number of bytes still needed, the code point so far and the bounds of the next byte.
\<close>

datatype utf8State = Start | Need nat nat nat nat

definition leadByte :: "nat \<Rightarrow> nat list \<times> utf8State" where
  "leadByte b =
     (if b \<le> 0x7F then ([b], Start)
      else if 0xC2 \<le> b \<and> b \<le> 0xDF then ([], Need 1 (b - 0xC0) 0x80 0xBF)
      else if 0xE0 \<le> b \<and> b \<le> 0xEF then
        ([], Need 2 (b - 0xE0) (if b = 0xE0 then 0xA0 else 0x80) (if b = 0xED then 0x9F else 0xBF))
      else if 0xF0 \<le> b \<and> b \<le> 0xF4 then
        ([], Need 3 (b - 0xF0) (if b = 0xF0 then 0x90 else 0x80) (if b = 0xF4 then 0x8F else 0xBF))
      else ([0xFFFD], Start))"

definition utf8Step :: "utf8State \<Rightarrow> nat \<Rightarrow> nat list \<times> utf8State" where
  "utf8Step s b =
     (case s of
        Start \<Rightarrow> leadByte b
      | Need n cp lo hi \<Rightarrow>
          if b < lo \<or> hi < b then (case leadByte b of (out, s') \<Rightarrow> (0xFFFD # out, s'))
          else
            let cp' = cp * 64 + (b - 0x80)
            in if n = 1 then ([cp'], Start) else ([], Need (n - 1) cp' 0x80 0xBF))"

fun utf8Decode :: "utf8State \<Rightarrow> nat list \<Rightarrow> nat list" where
  "utf8Decode s [] = (case s of Start \<Rightarrow> [] | Need n cp lo hi \<Rightarrow> [0xFFFD])"
| "utf8Decode s (b # bs) = (case utf8Step s b of (out, s') \<Rightarrow> out @ utf8Decode s' bs)"

definition utf16 :: "nat \<Rightarrow> nat list" where
  "utf16 cp =
     (if cp < 0x10000 then [cp]
      else [0xD800 + (cp - 0x10000) div 0x400, 0xDC00 + (cp - 0x10000) mod 0x400])"

definition toStringUtf8 :: "byte list \<Rightarrow> error + jsString" where
  "toStringUtf8 buffer =
     (if length buffer > kMaxStringLength then Inl ERR_STRING_TOO_LONG
      else Inr (concat (map utf16 (utf8Decode Start (map of_char buffer)))))"

subsection \<open>The watcher's callback\<close>

text \<open>
  The callback given to \<^verbatim>\<open>fs.watch\<close> in \<^verbatim>\<open>tailFile\<close> (lines 264 to 282), run for the
  watcher \<^verbatim>\<open>w\<close>, with the file system as \<^verbatim>\<open>statSync\<close> finds it (\<^verbatim>\<open>fsStat\<close>) and as
  \<^verbatim>\<open>openSync\<close> and the read find it (\<^verbatim>\<open>fsRead\<close>). The result is the exception that left the
  callback (if any), the watcher with its updated \<^verbatim>\<open>lastSize\<close>, what was appended to the
  output channel and the calls made. The callback catches nothing: an exception leaves it
  before \<^verbatim>\<open>lastSize\<close> is assigned and before anything is appended, and one of
  \<^verbatim>\<open>Buffer.alloc\<close> or \<^verbatim>\<open>readSync\<close> also before \<^verbatim>\<open>closeSync\<close>.
\<close>

definition onEvent ::
  "filesystem \<Rightarrow> filesystem \<Rightarrow> eventType \<Rightarrow> watcher \<Rightarrow>
     error option \<times> watcher \<times> shown list \<times> fsCall list" where
  "onEvent fsStat fsRead eventType w =
     (let p = filePath w in
      if eventType = Change then
        (case statSync fsStat p of
           Inl e \<Rightarrow> (Some e, w, [], [StatSync p])
         | Inr newSize \<Rightarrow>
             if newSize > lastSize w then
               (let rd = ReadSync p (int newSize - int (lastSize w)) (lastSize w) in
                case openSync fsRead p of
                  Inl e \<Rightarrow> (Some e, w, [], [StatSync p, OpenSync p])
                | Inr fd \<Rightarrow>
                    (case bufferAlloc (newSize - lastSize w) of
                       Inl e \<Rightarrow> (Some e, w, [], [StatSync p, OpenSync p])
                     | Inr len \<Rightarrow>
                         (case readSync fd len (lastSize w) of
                            Inl e \<Rightarrow> (Some e, w, [], [StatSync p, OpenSync p, rd])
                          | Inr buffer \<Rightarrow>
                              (case toStringUtf8 buffer of
                                 Inl e \<Rightarrow>
                                   (Some e, w, [], [StatSync p, OpenSync p, rd, CloseSync p])
                               | Inr newContent \<Rightarrow>
                                   (None, w\<lparr>lastSize := newSize\<rparr>, [Append newContent],
                                    [StatSync p, OpenSync p, rd, CloseSync p])))))
             else if newSize < lastSize w then
               (None, w\<lparr>lastSize := newSize\<rparr>, [TruncatedNotice], [StatSync p])
             else (None, w, [], [StatSync p]))
      else (None, w, [], []))"

text \<open>
  A notification of the operating system for the watcher with handle \<^verbatim>\<open>h\<close>. A closed
  watcher gets none.
\<close>

definition notify ::
  "filesystem \<Rightarrow> filesystem \<Rightarrow> eventType \<Rightarrow> nat \<Rightarrow> state \<Rightarrow> error option \<times> state" where
  "notify fsStat fsRead eventType h st =
     (case map_of (watchers st) h of
        None \<Rightarrow> (None, st)
      | Some w \<Rightarrow>
          (case onEvent fsStat fsRead eventType w of
             (e, w', os, cs) \<Rightarrow>
               (e, called cs (emit os (st\<lparr>watchers := AList.update h w' (watchers st)\<rparr>)))))"

subsection \<open>The tail command and teardown\<close>

text \<open>
  \<^verbatim>\<open>watcher.close()\<close>. The source calls it bare, so the only way a close can fail is by
  throwing. Which handles do so is the environment's choice, given as the predicate
  \<^verbatim>\<open>closeFails\<close>: the \<^verbatim>\<open>FSWatcher\<close> of the runtime closes without throwing (no handle
  fails), and a close that throws leaves the watcher open.
\<close>

definition closeWatcher :: "(nat \<Rightarrow> bool) \<Rightarrow> nat \<Rightarrow> state \<Rightarrow> error + state" where
  "closeWatcher closeFails h st =
     (if closeFails h then Inl (CloseError h)
      else Inr (called [CloseWatcher h] (st\<lparr>watchers := AList.delete h (watchers st)\<rparr>)))"

text \<open>
  \<^verbatim>\<open>tailFile\<close> (lines 246 to 289), the command behind toggling. The active editor is
  \<^verbatim>\<open>None\<close> when there is none; the path of a document is its file name. On a registered
  path the watcher found by \<^verbatim>\<open>get\<close> is closed (the optional call does nothing were there
  none), the path is deleted and the command returns. Otherwise the size that \<^verbatim>\<open>statSync\<close>
  finds (in \<^verbatim>\<open>fsStat\<close>) becomes the \<^verbatim>\<open>lastSize\<close> of a new watcher, which \<^verbatim>\<open>fs.watch\<close> opens
  (on \<^verbatim>\<open>fsWatch\<close>) and which is then registered under the path; an exception of \<^verbatim>\<open>statSync\<close>
  or of \<^verbatim>\<open>fs.watch\<close> leaves the command before anything is registered or shown.
\<close>

definition tailFile ::
  "(nat \<Rightarrow> bool) \<Rightarrow> bool \<Rightarrow> filesystem \<Rightarrow> filesystem \<Rightarrow> document option \<Rightarrow> state \<Rightarrow>
     error option \<times> state" where
  "tailFile closeFails watchFull fsStat fsWatch editor st =
     (case editor of
        None \<Rightarrow> (None, emit [WarnOpenLogFirst] st)
      | Some doc \<Rightarrow>
          if \<not> isLogFile doc then (None, emit [WarnOpenLogFirst] st)
          else
            let p = fileName doc in
            if has (tailWatchers st) p then
              (case (case map_of (tailWatchers st) p of
                       None \<Rightarrow> Inr st
                     | Some h \<Rightarrow> closeWatcher closeFails h st) of
                 Inl e \<Rightarrow> (Some e, st)
               | Inr st1 \<Rightarrow>
                   (None, emit [InfoStopped p]
                            (st1\<lparr>tailWatchers := AList.delete p (tailWatchers st1)\<rparr>)))
            else
              (case statSync fsStat p of
                 Inl e \<Rightarrow> (Some e, called [StatSync p] st)
               | Inr newSize \<Rightarrow>
                   (case watch watchFull fsWatch p of
                      Some e \<Rightarrow> (Some e, called [StatSync p, Watch p] st)
                    | None \<Rightarrow>
                        let h = nextHandle st;
                            st1 = called [StatSync p, Watch p]
                                    (st\<lparr>watchers := watchers st @
                                          [(h, \<lparr>filePath = p, lastSize = newSize\<rparr>)],
                                        nextHandle := h + 1\<rparr>)
                        in (None, emit [Clear, TailingHeader p, Show, InfoTailing p]
                                    (st1\<lparr>tailWatchers := AList.update p h (tailWatchers st1)\<rparr>)))))"

text \<open>
  \<^verbatim>\<open>tailWatchers.forEach((watcher) => watcher.close())\<close>: the handles are closed in the
  order of the map, and an exception ends the loop.
\<close>

fun closeEach :: "(nat \<Rightarrow> bool) \<Rightarrow> (path \<times> nat) list \<Rightarrow> state \<Rightarrow> error option \<times> state" where
  "closeEach closeFails [] st = (None, st)"
| "closeEach closeFails ((p, h) # rest) st =
     (case closeWatcher closeFails h st of
        Inl e \<Rightarrow> (Some e, st)
      | Inr st1 \<Rightarrow> closeEach closeFails rest st1)"

text \<open>
  \<^verbatim>\<open>deactivate\<close> (lines 301 to 305), and the disposable that \<^verbatim>\<open>activate\<close> registers (lines
  63 to 68), which has the same two statements: close every watcher, then clear the map.
  Disposing the decoration types touches the renderer only.
\<close>

definition deactivate :: "(nat \<Rightarrow> bool) \<Rightarrow> state \<Rightarrow> error option \<times> state" where
  "deactivate closeFails st =
     (case closeEach closeFails (tailWatchers st) st of
        (Some e, st1) \<Rightarrow> (Some e, st1)
      | (None, st1) \<Rightarrow> (None, st1\<lparr>tailWatchers := []\<rparr>))"

text \<open>The states the extension can be in: what the commands and notifications lead to.\<close>

inductive reachable :: "state \<Rightarrow> bool" where
  start: "reachable initState"
| command:
    "reachable st \<Longrightarrow> reachable (snd (tailFile closeFails watchFull fsStat fsWatch editor st))"
| notification: "reachable st \<Longrightarrow> reachable (snd (notify fsStat fsRead eventType h st))"
| teardown: "reachable st \<Longrightarrow> reachable (snd (deactivate closeFails st))"

text \<open>
  Two environments for closing: one where no close fails, one where exactly the close of
  handle \<^verbatim>\<open>k\<close> fails.
\<close>

definition noCloseFails :: "nat \<Rightarrow> bool" where
  "noCloseFails h = False"

definition closeFailsOn :: "nat \<Rightarrow> nat \<Rightarrow> bool" where
  "closeFailsOn k h = (h = k)"

text \<open>
  Example environments: two log documents, file systems holding them, and the states in
  which the first or both of them are being tailed.
\<close>

definition appLog :: document where
  "appLog = \<lparr>fileName = ''app.log'', languageId = ''log''\<rparr>"

definition errLog :: document where
  "errLog = \<lparr>fileName = ''err.log'', languageId = ''log''\<rparr>"

definition noFiles :: filesystem where
  "noFiles = map_of []"

definition filesWith :: "byte list \<Rightarrow> filesystem" where
  "filesWith bytes =
     map_of [(''app.log'', \<lparr>content = bytes, readable = True\<rparr>),
             (''err.log'', \<lparr>content = [], readable = True\<rparr>)]"

definition tailingAppLog :: state where
  "tailingAppLog =
     snd (tailFile noCloseFails False (filesWith ''boot'') (filesWith ''boot'') (Some appLog) initState)"

definition tailingBoth :: state where
  "tailingBoth =
     snd (tailFile noCloseFails False (filesWith ''boot'') (filesWith ''boot'') (Some errLog)
            tailingAppLog)"

text \<open>
  A file that exists and cannot be read, and the bytes of the letters e-acute and
  u-umlaut, each followed by the first byte of a two-byte character.
\<close>

definition lockedFiles :: filesystem where
  "lockedFiles = map_of [(''app.log'', \<lparr>content = ''boot'', readable = False\<rparr>)]"

definition eAcuteAndHalf :: "byte list" where
  "eAcuteAndHalf = [CHR 0xC3, CHR 0xA9, CHR 0xC3]"

definition uUmlautAndHalf :: "byte list" where
  "uUmlautAndHalf = [CHR 0xC3, CHR 0xBC, CHR 0xC3]"

text \<open>
  The registry is well formed: no path and no handle is listed twice, and every open
  watcher is the one registered under the path it watches, with a handle already given out.
\<close>

definition sessionInv :: "state \<Rightarrow> bool" where
  "sessionInv st \<longleftrightarrow>
     distinct (map fst (tailWatchers st)) \<and>
     distinct (map fst (watchers st)) \<and>
     (\<forall>h w. map_of (watchers st) h = Some w \<longrightarrow>
        map_of (tailWatchers st) (filePath w) = Some h \<and> h < nextHandle st)"

section \<open>Properties of the classifier\<close>

lemma search_mono:
  assumes "\<And>p s. matchHere r p s \<Longrightarrow> matchHere r' p s"
  shows "search r p s \<Longrightarrow> search r' p s"
  using assms by (induction s arbitrary: p) auto

lemma wholeWord_more_alternatives:
  "matchHere (wholeWord (Alt a (Alt b c))) p s \<Longrightarrow> matchHere (wholeWord (Alt a (Alt b (Alt c d)))) p s"
  by (auto simp: matchHere_def wholeWord_def)

lemma statusError_in_table: "test statusError line \<Longrightarrow> anyPatternMatches errorPatterns line"
  unfolding test_def statusError_def errorPatterns_def
  using search_mono [OF wholeWord_more_alternatives]
  by (auto simp: test_def)

lemma statusWarn_in_table: "test statusWarn line \<Longrightarrow> anyPatternMatches warnPatterns line"
  by (simp add: statusWarn_def warnPatterns_def)

lemma statusInfo_in_table: "test statusInfo line \<Longrightarrow> anyPatternMatches infoPatterns line"
  by (simp add: statusInfo_def infoPatterns_def)

lemma primaryLevel_cases:
  "primaryLevel line =
     (if anyPatternMatches errorPatterns line then Some ''ERROR''
      else if anyPatternMatches warnPatterns line then Some ''WARN''
      else if anyPatternMatches infoPatterns line then Some ''INFO''
      else if anyPatternMatches debugPatterns line then Some ''DEBUG''
      else None)"
  by (simp add: primaryLevel_def logLevels_def levelMatches_def)

lemma debug_line_uncounted:
  "primaryLevel line = Some ''DEBUG'' \<Longrightarrow> countLine c line = c"
  using statusError_in_table statusWarn_in_table statusInfo_in_table
  by (auto simp: primaryLevel_cases countLine_def split: if_splits)

lemma updateStatusBar_skip:
  assumes "\<And>c. countLine c line = c"
  shows "updateStatusBar (pre @ line # post) = updateStatusBar (pre @ post)"
  using assms by (simp add: updateStatusBar_def)

text \<open>
  Claim C1: every line whose primary level under the table is ERROR, also one matched only
  by the token SEVERE, by the tag \<^verbatim>\<open>[ERROR]\<close> or by the key-value form, increments the ERROR
  counter of the counting pass and no other. The counting pass has patterns of its own,
  which lack SEVERE and the key-value form: a one-line document whose line is ERROR by
  the table leaves the three counters at zero.
\<close>

theorem statusBar_misses_severe:
  "primaryLevel ''SEVERE: disk failure'' = Some ''ERROR'' \<and>
   applyHighlights [''SEVERE: disk failure''] =
     [(''ERROR'', [0]), (''WARN'', []), (''INFO'', []), (''DEBUG'', [])] \<and>
   updateStatusBar [''SEVERE: disk failure''] = \<lparr>errorCount = 0, warnCount = 0, infoCount = 0\<rparr>"
  by code_simp

text \<open>
  Claim C2 says that the counts hold a counter for every level, DEBUG included, which a
  line whose primary level is DEBUG increments. The counts of \<^verbatim>\<open>updateStatusBar\<close> are the
  three counters for ERROR, WARN and INFO: a document of one DEBUG line counts as the
  empty document does.
\<close>

theorem debug_line_increments_nothing:
  "primaryLevel ''DEBUG cache warm'' = Some ''DEBUG'' \<and>
   updateStatusBar [''DEBUG cache warm''] = \<lparr>errorCount = 0, warnCount = 0, infoCount = 0\<rparr> \<and>
   updateStatusBar [''DEBUG cache warm''] = updateStatusBar []"
  by code_simp

text \<open>
  Claim C2, as the code has it: the counts are the three counters for ERROR, WARN and
  INFO; a line whose primary level is DEBUG changes none of them, wherever it stands in
  the document; and the document \<^verbatim>\<open>"2024 ERROR db down\n2024 INFO ok\n"\<close> counts one ERROR,
  no WARN and one INFO.
\<close>

theorem updateStatusBar_three_counters:
  "(\<forall>pre line post. primaryLevel line = Some ''DEBUG'' \<longrightarrow>
      updateStatusBar (pre @ line # post) = updateStatusBar (pre @ post)) \<and>
   updateStatusBar (documentLines ''2024 ERROR db down\<newline>2024 INFO ok\<newline>'') =
     \<lparr>errorCount = 1, warnCount = 0, infoCount = 1\<rparr>"
proof (intro conjI allI impI)
  fix pre line post
  assume "primaryLevel line = Some ''DEBUG''"
  then have "countLine c line = c" for c by (rule debug_line_uncounted)
  then show "updateStatusBar (pre @ line # post) = updateStatusBar (pre @ post)"
    by (rule updateStatusBar_skip)
next
  show "updateStatusBar (documentLines ''2024 ERROR db down\<newline>2024 INFO ok\<newline>'') =
     \<lparr>errorCount = 1, warnCount = 0, infoCount = 1\<rparr>"
    by code_simp
qed

theorem updateStatusBar_three_counters_witness:
  "primaryLevel ''VERBOSE: pool size 4'' = Some ''DEBUG'' \<and>
   updateStatusBar [''2024 ERROR db down'', ''VERBOSE: pool size 4'', ''2024 INFO ok''] =
     updateStatusBar [''2024 ERROR db down'', ''2024 INFO ok'']"
proof -
  have h: "primaryLevel ''VERBOSE: pool size 4'' = Some ''DEBUG''" by code_simp
  from updateStatusBar_three_counters
  have "updateStatusBar ([''2024 ERROR db down''] @ ''VERBOSE: pool size 4'' # [''2024 INFO ok'']) =
        updateStatusBar ([''2024 ERROR db down''] @ [''2024 INFO ok''])"
    using h by blast
  with h show ?thesis by simp
qed

text \<open>
  Claim C6: a line may be in the match sets of several levels, each level being tested on
  its own, while counting gives the line to its primary level alone, the first of ERROR,
  WARN, INFO and DEBUG that matches it. The first half holds: the line
  \<^verbatim>\<open>SEVERE WARNING: disk\<close> is decorated for ERROR and for WARN. Its primary level is ERROR,
  but the counting pass, whose ERROR pattern lacks SEVERE, counts it for WARN.
\<close>

theorem statusBar_counts_below_primary:
  "applyHighlights [''SEVERE WARNING: disk''] =
     [(''ERROR'', [0]), (''WARN'', [0]), (''INFO'', []), (''DEBUG'', [])] \<and>
   matchSet ''SEVERE WARNING: disk'' = [''ERROR'', ''WARN''] \<and>
   primaryLevel ''SEVERE WARNING: disk'' = Some ''ERROR'' \<and>
   updateStatusBar [''SEVERE WARNING: disk''] = \<lparr>errorCount = 0, warnCount = 1, infoCount = 0\<rparr>"
  by code_simp

section \<open>Properties of the registry\<close>

lemma sessionInv_init: "sessionInv initState"
  by (simp add: sessionInv_def initState_def)

lemma sessionInv_registered:
  "sessionInv st \<Longrightarrow> map_of (watchers st) h = Some w \<Longrightarrow>
     map_of (tailWatchers st) (filePath w) = Some h"
  unfolding sessionInv_def by blast

lemma sessionInv_bound:
  "sessionInv st \<Longrightarrow> map_of (watchers st) h = Some w \<Longrightarrow> h < nextHandle st"
  unfolding sessionInv_def by blast

lemma sessionInv_distinct:
  "sessionInv st \<Longrightarrow> distinct (map fst (tailWatchers st)) \<and> distinct (map fst (watchers st))"
  unfolding sessionInv_def by blast

lemma fresh_handle:
  assumes "sessionInv st"
  shows "nextHandle st \<notin> fst ` set (watchers st)"
proof
  assume "nextHandle st \<in> fst ` set (watchers st)"
  then obtain w where "map_of (watchers st) (nextHandle st) = Some w"
    by (metis domD dom_map_of_conv_image_fst)
  with assms have "nextHandle st < nextHandle st" by (rule sessionInv_bound)
  then show False by simp
qed

lemma map_of_snoc_fresh:
  "k \<notin> fst ` set al \<Longrightarrow> map_of (al @ [(k, v)]) = (map_of al)(k \<mapsto> v)"
  by (induction al) (auto simp: fun_eq_iff)

lemma closeWatcher_frame:
  assumes "closeWatcher cf h st = Inr st1"
  shows "tailWatchers st1 = tailWatchers st" "nextHandle st1 = nextHandle st"
    "channel st1 = channel st" "watchers st1 = AList.delete h (watchers st)"
    "calls st1 = calls st @ [CloseWatcher h]" "\<not> cf h"
  using assms by (auto simp: closeWatcher_def called_def split: if_splits)

lemma sessionInv_closeWatcher:
  assumes "sessionInv st" "closeWatcher cf h st = Inr st1"
  shows "sessionInv st1"
proof -
  note f = closeWatcher_frame [OF assms(2)]
  have "map_of (tailWatchers st1) (filePath w) = Some k \<and> k < nextHandle st1"
    if look: "map_of (watchers st1) k = Some w" for k w
  proof -
    from look have old: "map_of (watchers st) k = Some w"
      by (auto simp: f AList.delete_conv' split: if_splits)
    from sessionInv_registered [OF assms(1) old] sessionInv_bound [OF assms(1) old]
    show ?thesis by (simp add: f)
  qed
  moreover have "distinct (map fst (tailWatchers st1))" "distinct (map fst (watchers st1))"
    using sessionInv_distinct [OF assms(1)] by (simp_all add: f AList.distinct_delete)
  ultimately show ?thesis unfolding sessionInv_def by blast
qed

lemma sessionInv_tailFile:
  assumes "sessionInv st"
  shows "sessionInv (snd (tailFile cf full fs fsW editor st))"
proof (cases editor)
  case None
  with assms show ?thesis by (simp add: tailFile_def Let_def emit_def sessionInv_def)
next
  case (Some doc)
  show ?thesis
  proof (cases "isLogFile doc")
    case False
    with Some assms show ?thesis by (simp add: tailFile_def Let_def emit_def sessionInv_def)
  next
    case True
    let ?p = "fileName doc"
    show ?thesis
    proof (cases "map_of (tailWatchers st) ?p")
      case None
      note absent = this
      then have nh: "\<not> has (tailWatchers st) ?p" by (simp add: has_def)
      show ?thesis
      proof (cases "fs ?p = None \<or> watch full fsW ?p \<noteq> None")
        case True
        with Some \<open>isLogFile doc\<close> nh assms show ?thesis
          by (auto simp: tailFile_def Let_def statSync_def called_def sessionInv_def
                split: option.splits)
      next
        case False
        then obtain f where Some: "fs ?p = Some f" and wok: "watch full fsW ?p = None" by auto
        have fresh: "nextHandle st \<notin> fst ` set (watchers st)"
          using assms by (rule fresh_handle)
        define w0 where "w0 = \<lparr>filePath = ?p, lastSize = length (content f)\<rparr>"
        define st' where "st' = snd (tailFile cf full fs fsW editor st)"
        have tw: "tailWatchers st' = AList.update ?p (nextHandle st) (tailWatchers st)"
          and ws: "watchers st' = watchers st @ [(nextHandle st, w0)]"
          and nh': "nextHandle st' = nextHandle st + 1"
          using \<open>editor = Some doc\<close> \<open>isLogFile doc\<close> nh Some wok
          by (simp_all add: st'_def w0_def tailFile_def Let_def statSync_def called_def emit_def)
        have d1: "distinct (map fst (tailWatchers st'))"
          using assms by (simp add: tw sessionInv_def AList.distinct_update)
        have d2: "distinct (map fst (watchers st'))"
          using assms fresh by (simp add: ws sessionInv_def)
        have m: "map_of (watchers st') = (map_of (watchers st))(nextHandle st \<mapsto> w0)"
          unfolding ws using fresh by (rule map_of_snoc_fresh)
        have d3: "map_of (tailWatchers st') (filePath w) = Some h \<and> h < nextHandle st'"
          if look: "map_of (watchers st') h = Some w" for h w
        proof (cases "h = nextHandle st")
          case True
          with look have "w = w0" by (simp add: m)
          with True show ?thesis by (simp add: tw nh' w0_def AList.update_conv')
        next
          case False
          with look have old: "map_of (watchers st) h = Some w"
            by (simp add: m)
          with assms have reg: "map_of (tailWatchers st) (filePath w) = Some h" and lt: "h < nextHandle st"
            by (auto intro: sessionInv_registered sessionInv_bound)
          from reg absent have "filePath w \<noteq> ?p" by auto
          with reg lt show ?thesis by (simp add: tw nh' AList.update_conv')
        qed
        from d1 d2 d3 show ?thesis unfolding sessionInv_def st'_def [symmetric] by blast
      qed
    next
      case (Some h)
      note present = this
      then have yh: "has (tailWatchers st) ?p" by (simp add: has_def)
      show ?thesis
      proof (cases "closeWatcher cf h st")
        case (Inl e)
        with \<open>editor = Some doc\<close> True present yh assms show ?thesis
          by (simp add: tailFile_def Let_def)
      next
        case (Inr st1)
        have inv1: "sessionInv st1" using assms Inr by (rule sessionInv_closeWatcher)
        have others: "filePath w \<noteq> ?p" if "map_of (watchers st1) h' = Some w" for h' w
        proof
          assume eq: "filePath w = ?p"
          have ws1: "watchers st1 = AList.delete h (watchers st)"
            using Inr by (rule closeWatcher_frame)
          from that have "h' \<noteq> h" by (auto simp: ws1 AList.delete_conv' split: if_splits)
          moreover from that have "map_of (watchers st) h' = Some w"
            by (auto simp: ws1 AList.delete_conv' split: if_splits)
          then have "map_of (tailWatchers st) (filePath w) = Some h'"
            using assms by (auto intro: sessionInv_registered)
          with eq present have "h' = h" by simp
          ultimately show False by simp
        qed
        let ?st2 = "emit [InfoStopped ?p] (st1\<lparr>tailWatchers := AList.delete ?p (tailWatchers st1)\<rparr>)"
        have "map_of (tailWatchers ?st2) (filePath w) = Some h' \<and> h' < nextHandle ?st2"
          if look: "map_of (watchers ?st2) h' = Some w" for h' w
        proof -
          from look have l1: "map_of (watchers st1) h' = Some w" by (simp add: emit_def)
          from others [OF l1] sessionInv_registered [OF inv1 l1] sessionInv_bound [OF inv1 l1]
          show ?thesis by (simp add: emit_def AList.delete_conv')
        qed
        moreover have "distinct (map fst (tailWatchers ?st2))" "distinct (map fst (watchers ?st2))"
          using sessionInv_distinct [OF inv1] by (simp_all add: emit_def AList.distinct_delete)
        ultimately have "sessionInv ?st2" unfolding sessionInv_def by blast
        with \<open>editor = Some doc\<close> True present yh Inr show ?thesis
          by (simp add: tailFile_def Let_def)
      qed
    qed
  qed
qed

lemma onEvent_filePath:
  "onEvent fs fsR ev w = (e, w', os, cs) \<Longrightarrow> filePath w' = filePath w"
  by (auto simp: onEvent_def Let_def split: if_splits sum.splits)

lemma sessionInv_notify:
  assumes "sessionInv st"
  shows "sessionInv (snd (notify fs fsR ev h st))"
proof (cases "map_of (watchers st) h")
  case None
  with assms show ?thesis by (simp add: notify_def)
next
  case (Some w)
  obtain e w' os cs where ev: "onEvent fs fsR ev w = (e, w', os, cs)"
    by (cases "onEvent fs fsR ev w") auto
  then have "filePath w' = filePath w" by (rule onEvent_filePath)
  let ?st' = "called cs (emit os (st\<lparr>watchers := AList.update h w' (watchers st)\<rparr>))"
  have "map_of (tailWatchers ?st') (filePath v) = Some k \<and> k < nextHandle ?st'"
    if look: "map_of (watchers ?st') k = Some v" for k v
  proof (cases "k = h")
    case True
    with look have "v = w'" by (simp add: called_def emit_def AList.update_conv')
    with True \<open>filePath w' = filePath w\<close> sessionInv_registered [OF assms Some]
      sessionInv_bound [OF assms Some]
    show ?thesis by (simp add: called_def emit_def)
  next
    case False
    with look have old: "map_of (watchers st) k = Some v"
      by (simp add: called_def emit_def AList.update_conv')
    from sessionInv_registered [OF assms old] sessionInv_bound [OF assms old]
    show ?thesis by (simp add: called_def emit_def)
  qed
  moreover have "distinct (map fst (tailWatchers ?st'))" "distinct (map fst (watchers ?st'))"
    using sessionInv_distinct [OF assms]
    by (simp_all add: called_def emit_def AList.distinct_update)
  ultimately have "sessionInv ?st'" unfolding sessionInv_def by blast
  with Some ev show ?thesis by (simp add: notify_def)
qed

lemma closeEach_inv:
  "sessionInv st \<Longrightarrow> sessionInv (snd (closeEach cf l st))"
proof (induction l arbitrary: st)
  case Nil
  then show ?case by simp
next
  case (Cons a l)
  obtain p h where a: "a = (p, h)" by (cases a)
  show ?case
  proof (cases "closeWatcher cf h st")
    case (Inl e)
    with Cons.prems a show ?thesis by simp
  next
    case (Inr st1)
    with Cons.prems have "sessionInv st1" by (auto intro: sessionInv_closeWatcher)
    with Cons.IH Inr a show ?thesis by simp
  qed
qed

lemma closeEach_done:
  "closeEach cf l st = (None, st1) \<Longrightarrow>
     tailWatchers st1 = tailWatchers st \<and> nextHandle st1 = nextHandle st \<and>
     channel st1 = channel st \<and>
     calls st1 = calls st @ map (\<lambda>(p, h). CloseWatcher h) l \<and>
     (\<forall>h. map_of (watchers st1) h = (if h \<in> snd ` set l then None else map_of (watchers st) h)) \<and>
     (\<forall>(p, h) \<in> set l. \<not> cf h)"
proof (induction l arbitrary: st)
  case Nil
  then show ?case by simp
next
  case (Cons a l)
  obtain p h where a: "a = (p, h)" by (cases a)
  from Cons.prems a obtain st' where c: "closeWatcher cf h st = Inr st'"
    and r: "closeEach cf l st' = (None, st1)"
    by (auto split: sum.splits)
  note f = closeWatcher_frame [OF c]
  from Cons.IH [OF r] f a show ?case
    by (auto simp: AList.delete_conv')
qed

lemma sessionInv_deactivate:
  assumes "sessionInv st"
  shows "sessionInv (snd (deactivate cf st))"
proof (cases "closeEach cf (tailWatchers st) st")
  case (Pair e st1)
  have inv1: "sessionInv st1" using closeEach_inv [OF assms, of cf "tailWatchers st"] Pair by simp
  show ?thesis
  proof (cases e)
    case (Some err)
    with Pair inv1 show ?thesis by (simp add: deactivate_def)
  next
    case None
    with Pair have d: "closeEach cf (tailWatchers st) st = (None, st1)" by simp
    have "map_of (watchers st1) h = None" for h
    proof (cases "map_of (watchers st) h")
      case None
      with closeEach_done [OF d] show ?thesis by auto
    next
      case (Some w)
      with assms have "map_of (tailWatchers st) (filePath w) = Some h" by (rule sessionInv_registered)
      then have "h \<in> snd ` set (tailWatchers st)" by (force dest: map_of_SomeD)
      with closeEach_done [OF d] show ?thesis by auto
    qed
    then have "watchers st1 = []"
      by (metis map_of_eq_empty_iff fun_eq_iff) 
    with None Pair inv1 show ?thesis by (simp add: deactivate_def sessionInv_def)
  qed
qed

lemma reachable_sessionInv: "reachable st \<Longrightarrow> sessionInv st"
  by (induction rule: reachable.induct)
     (auto intro: sessionInv_init sessionInv_tailFile sessionInv_notify sessionInv_deactivate)

section \<open>The example states\<close>

lemmas example_defs =
  appLog_def errLog_def noFiles_def filesWith_def noCloseFails_def closeFailsOn_def initState_def
  isLogFile_def endsWith_def toLowerCase_def has_def watch_def lockedFiles_def

lemma appLog_isLogFile: "isLogFile appLog"
  by (simp add: example_defs)

lemma errLog_isLogFile: "isLogFile errLog"
  by (simp add: example_defs)

lemma tailingAppLog_eq:
  "tailingAppLog =
     \<lparr>tailWatchers = [(''app.log'', 0)],
      watchers = [(0, \<lparr>filePath = ''app.log'', lastSize = 4\<rparr>)],
      nextHandle = 1,
      channel = [Clear, TailingHeader ''app.log'', Show, InfoTailing ''app.log''],
      calls = [StatSync ''app.log'', Watch ''app.log'']\<rparr>"
  unfolding tailingAppLog_def
  by (simp add: tailFile_def Let_def statSync_def called_def emit_def example_defs)

lemma tailingBoth_eq:
  "tailingBoth =
     \<lparr>tailWatchers = [(''app.log'', 0), (''err.log'', 1)],
      watchers = [(0, \<lparr>filePath = ''app.log'', lastSize = 4\<rparr>),
                  (1, \<lparr>filePath = ''err.log'', lastSize = 0\<rparr>)],
      nextHandle = 2,
      channel = [Clear, TailingHeader ''app.log'', Show, InfoTailing ''app.log'',
                 Clear, TailingHeader ''err.log'', Show, InfoTailing ''err.log''],
      calls = [StatSync ''app.log'', Watch ''app.log'', StatSync ''err.log'', Watch ''err.log'']\<rparr>"
  unfolding tailingBoth_def
  by (simp add: tailingAppLog_eq tailFile_def Let_def statSync_def called_def emit_def example_defs)

lemma reachable_tailingAppLog: "reachable tailingAppLog"
  unfolding tailingAppLog_def by (intro reachable.command reachable.start)

lemma reachable_tailingBoth: "reachable tailingBoth"
  unfolding tailingBoth_def by (intro reachable.command reachable_tailingAppLog)

section \<open>Properties of the watcher's callback\<close>

lemma notify_open:
  assumes "map_of (watchers st) h = Some w" "onEvent fsStat fsRead ev w = (e, w', os, cs)"
  shows "notify fsStat fsRead ev h st =
           (e, st\<lparr>watchers := AList.update h w' (watchers st),
                  channel := channel st @ os, calls := calls st @ cs\<rparr>)"
  using assms by (simp add: notify_def called_def emit_def)

lemma toInt32_small: "n < 2 ^ 31 \<Longrightarrow> toInt32 n = int n"
  by (simp add: toInt32_def)

lemma kMaxStringLength_less: "kMaxStringLength < 2 ^ 31" "kMaxStringLength \<le> kMaxLength"
  by (simp_all add: kMaxStringLength_def kMaxLength_def)

text \<open>
  A read of a length within the limits, from a file that has that many bytes at the
  position, fills the buffer with exactly those bytes.
\<close>

lemma readSync_within:
  assumes "0 < len" "len \<le> kMaxStringLength" "pos + len \<le> length (content f)"
  shows "readSync f len pos = Inr (take len (drop pos (content f)))"
proof -
  from assms(2) kMaxStringLength_less(1) have "len < 2 ^ 31" by simp
  then have "toInt32 len = int len" by (rule toInt32_small)
  with assms(1,3) show ?thesis by (simp add: readSync_def Let_def)
qed

lemma utf8Decode_ascii:
  "\<forall>b \<in> set bs. b < 128 \<Longrightarrow> utf8Decode Start bs = bs"
  by (induction bs) (auto simp: utf8Step_def leadByte_def)

lemma utf16_ascii: "\<forall>b \<in> set bs. b < (128::nat) \<Longrightarrow> concat (map utf16 bs) = bs"
  by (induction bs) (auto simp: utf16_def)

lemma toStringUtf8_ascii:
  assumes "length buffer \<le> kMaxStringLength" "\<forall>b \<in> set buffer. of_char b < (128::nat)"
  shows "toStringUtf8 buffer = Inr (map of_char buffer)"
proof -
  from assms(2) have a: "\<forall>b \<in> set (map of_char buffer). b < (128::nat)" by simp
  from assms(1) utf8Decode_ascii [OF a] utf16_ascii [OF a] show ?thesis
    by (simp add: toStringUtf8_def)
qed

lemma toStringUtf8_within:
  "length buffer \<le> kMaxStringLength \<Longrightarrow> \<exists>newContent. toStringUtf8 buffer = Inr newContent"
  by (simp add: toStringUtf8_def)

lemma onEvent_grown:
  assumes "fsStat (filePath w) = Some f" "lastSize w < length (content f)"
    and "length (content f) - lastSize w \<le> kMaxStringLength"
    and "fsRead (filePath w) = Some f'" "readable f'"
    and "length (content f) \<le> length (content f')"
    and "toStringUtf8 (take (length (content f) - lastSize w) (drop (lastSize w) (content f'))) =
           Inr newContent"
  shows "onEvent fsStat fsRead Change w =
           (None, w\<lparr>lastSize := length (content f)\<rparr>, [Append newContent],
            [StatSync (filePath w), OpenSync (filePath w),
             ReadSync (filePath w) (int (length (content f) - lastSize w)) (lastSize w),
             CloseSync (filePath w)])"
proof -
  let ?len = "length (content f) - lastSize w"
  from assms(2) have pos: "0 < ?len" by simp
  from assms(2,6) have "lastSize w + ?len \<le> length (content f')" by simp
  with pos assms(3)
  have rd: "readSync f' ?len (lastSize w) = Inr (take ?len (drop (lastSize w) (content f')))"
    by (rule readSync_within)
  from assms(3) kMaxStringLength_less(2) have al: "bufferAlloc ?len = Inr ?len"
    by (simp add: bufferAlloc_def)
  from assms(1,2,4,5,7) rd al show ?thesis
    by (simp add: onEvent_def Let_def statSync_def openSync_def of_nat_diff)
qed

lemma onEvent_shrunk:
  assumes "fsStat (filePath w) = Some f" "length (content f) < lastSize w"
  shows "onEvent fsStat fsRead Change w =
           (None, w\<lparr>lastSize := length (content f)\<rparr>, [TruncatedNotice], [StatSync (filePath w)])"
  using assms by (simp add: onEvent_def Let_def statSync_def)

lemma onEvent_same:
  assumes "fsStat (filePath w) = Some f" "length (content f) = lastSize w"
  shows "onEvent fsStat fsRead Change w = (None, w, [], [StatSync (filePath w)])"
  using assms by (simp add: onEvent_def Let_def statSync_def)

lemma onEvent_missing:
  assumes "fsStat (filePath w) = None"
  shows "onEvent fsStat fsRead Change w =
           (Some (ENOENT (filePath w)), w, [], [StatSync (filePath w)])"
  using assms by (simp add: onEvent_def Let_def statSync_def)

lemma onEvent_gone_before_open:
  assumes "fsStat (filePath w) = Some f" "lastSize w < length (content f)"
    and "fsRead (filePath w) = None"
  shows "onEvent fsStat fsRead Change w =
           (Some (ENOENT (filePath w)), w, [], [StatSync (filePath w), OpenSync (filePath w)])"
  using assms by (simp add: onEvent_def Let_def statSync_def openSync_def)

lemma onEvent_unreadable:
  assumes "fsStat (filePath w) = Some f" "lastSize w < length (content f)"
    and "fsRead (filePath w) = Some f'" "\<not> readable f'"
  shows "onEvent fsStat fsRead Change w =
           (Some (EACCES (filePath w)), w, [], [StatSync (filePath w), OpenSync (filePath w)])"
  using assms by (simp add: onEvent_def Let_def statSync_def openSync_def)

text \<open>
  The buffer that a read leaves has the length it was allocated with, so a growth beyond
  the longest string never reaches the output channel: \<^verbatim>\<open>Buffer.alloc\<close>, \<^verbatim>\<open>readSync\<close> or
  \<^verbatim>\<open>toString\<close> throws, and the watcher keeps its \<^verbatim>\<open>lastSize\<close>. At a growth of \<^verbatim>\<open>2 ^ 31\<close>
  bytes it is \<^verbatim>\<open>readSync\<close> that throws, on the length \<^verbatim>\<open>- 2 ^ 31\<close>.
\<close>

lemma toInt32_le: "toInt32 n \<le> int n"
proof -
  have "(int n + 2 ^ 31) mod 2 ^ 32 \<le> int n + 2 ^ 31"
    by (rule zmod_le_nonneg_dividend) simp
  then show ?thesis by (simp add: toInt32_def)
qed

lemma readSync_length: "readSync f len pos = Inr buffer \<Longrightarrow> length buffer = len"
proof -
  assume r: "readSync f len pos = Inr buffer"
  have "nat (toInt32 len) \<le> len" using toInt32_le [of len] by simp
  with r show ?thesis by (auto simp: readSync_def Let_def split: if_splits)
qed

lemma onEvent_growth_beyond_limit:
  assumes "fsStat (filePath w) = Some f"
    and "kMaxStringLength < length (content f) - lastSize w"
  shows "\<exists>e cs. onEvent fsStat fsRead Change w = (Some e, w, [], cs)"
proof -
  let ?len = "length (content f) - lastSize w"
  from assms(2) have gr: "lastSize w < length (content f)" by simp
  have long: "toStringUtf8 buffer = Inl ERR_STRING_TOO_LONG"
    if "readSync fd ?len (lastSize w) = Inr buffer" for fd buffer
    using readSync_length [OF that] assms(2) by (simp add: toStringUtf8_def)
  from assms(1) gr show ?thesis
    by (auto simp: onEvent_def Let_def statSync_def bufferAlloc_def long
          split: sum.splits if_splits)
qed

lemma onEvent_growth_two_to_31:
  assumes "fsStat (filePath w) = Some f" "length (content f) = lastSize w + 2 ^ 31"
    and "fsRead (filePath w) = Some f'" "readable f'"
  shows "onEvent fsStat fsRead Change w =
           (Some (ERR_OUT_OF_RANGE (- 2147483648)), w, [],
            [StatSync (filePath w), OpenSync (filePath w),
             ReadSync (filePath w) 2147483648 (lastSize w)])"
proof -
  have "toInt32 (2 ^ 31) = - 2147483648" by (simp add: toInt32_def)
  then have "readSync f' (2 ^ 31) (lastSize w) = Inl (ERR_OUT_OF_RANGE (- 2147483648))"
    by (simp add: readSync_def)
  with assms show ?thesis
    by (simp add: onEvent_def Let_def statSync_def openSync_def bufferAlloc_def kMaxLength_def)
qed

lemma notify_grown:
  assumes "map_of (watchers st) h = Some w"
    and "fsStat (filePath w) = Some f"
    and "lastSize w < length (content f)"
    and "length (content f) - lastSize w \<le> kMaxStringLength"
    and "fsRead (filePath w) = Some f'" and "readable f'"
    and "length (content f) \<le> length (content f')"
  shows "\<exists>st' newContent.
           notify fsStat fsRead Change h st = (None, st') \<and>
           toStringUtf8 (take (length (content f) - lastSize w) (drop (lastSize w) (content f'))) =
             Inr newContent \<and>
           length (take (length (content f) - lastSize w) (drop (lastSize w) (content f'))) =
             length (content f) - lastSize w \<and>
           channel st' = channel st @ [Append newContent] \<and>
           ((\<forall>b \<in> set (take (length (content f) - lastSize w) (drop (lastSize w) (content f'))).
               of_char b < (128::nat)) \<longrightarrow>
            newContent =
              map of_char (take (length (content f) - lastSize w) (drop (lastSize w) (content f'))) \<and>
            length newContent = length (content f) - lastSize w) \<and>
           calls st' = calls st @
             [StatSync (filePath w), OpenSync (filePath w),
              ReadSync (filePath w) (int (length (content f) - lastSize w)) (lastSize w),
              CloseSync (filePath w)] \<and>
           map_of (watchers st') h = Some (w\<lparr>lastSize := length (content f)\<rparr>) \<and>
           (\<forall>k. k \<noteq> h \<longrightarrow> map_of (watchers st') k = map_of (watchers st) k) \<and>
           tailWatchers st' = tailWatchers st"
proof -
  let ?bytes = "take (length (content f) - lastSize w) (drop (lastSize w) (content f'))"
  from assms(3,7) have len: "length ?bytes = length (content f) - lastSize w" by simp
  with assms(4) obtain newContent where dec: "toStringUtf8 ?bytes = Inr newContent"
    using toStringUtf8_within [of ?bytes] by auto
  have ascii: "newContent = map of_char ?bytes \<and> length newContent = length (content f) - lastSize w"
    if "\<forall>b \<in> set ?bytes. of_char b < (128::nat)"
  proof -
    from len assms(4) have "length ?bytes \<le> kMaxStringLength" by simp
    from toStringUtf8_ascii [OF this that] dec len show ?thesis by simp
  qed
  from notify_open [OF assms(1)
      onEvent_grown [of fsStat w f fsRead f' newContent, OF assms(2-7) dec]]
    dec len ascii
  show ?thesis by (simp add: AList.update_conv')
qed

text \<open>
  Claim C4 says that a change notification that finds the file grown emits one
  \<^verbatim>\<open>Appended\<close> whose payload is exactly the new bytes, as many as the file grew by. What
  the callback appends is \<^verbatim>\<open>buffer.toString('utf-8')\<close>: after three new bytes, the letter
  e-acute and the first byte of a character not yet complete, the payload is the two
  code units U+00E9 and U+FFFD.
\<close>

theorem appended_payload_is_decoded_text:
  "length eAcuteAndHalf = 3 \<and>
   notify (filesWith (''boot'' @ eAcuteAndHalf)) (filesWith (''boot'' @ eAcuteAndHalf))
       Change 0 tailingAppLog =
     (None,
      \<lparr>tailWatchers = [(''app.log'', 0)],
       watchers = [(0, \<lparr>filePath = ''app.log'', lastSize = 7\<rparr>)],
       nextHandle = 1,
       channel = [Clear, TailingHeader ''app.log'', Show, InfoTailing ''app.log'',
                  Append [0xE9, 0xFFFD]],
       calls = [StatSync ''app.log'', Watch ''app.log'', StatSync ''app.log'',
                OpenSync ''app.log'', ReadSync ''app.log'' 3 4, CloseSync ''app.log'']\<rparr>)"
  by (simp add: tailingAppLog_eq notify_def onEvent_def Let_def statSync_def openSync_def
        bufferAlloc_def kMaxLength_def readSync_def toInt32_def toStringUtf8_def
        kMaxStringLength_def utf8Step_def leadByte_def utf16_def called_def emit_def
        filesWith_def eAcuteAndHalf_def)

text \<open>
  Claim C4, as the code has it: for a watcher that tracks the offset \<^verbatim>\<open>lastSize\<close>, a
  change notification that finds the file larger, by no more than the longest string, and
  can open it and read the new bytes, emits exactly one \<^verbatim>\<open>Append\<close>. Its payload is the
  UTF-8 decoding of exactly the bytes from the offset up to the new size, as many as the
  file grew by (for ASCII bytes the payload is those bytes, one character each); they are
  read by one read of that length at that position; and the offset becomes the new size.
  The registry and the other watchers stay as they are.
\<close>

theorem append_emits_decoded_new_bytes:
  assumes "map_of (watchers st) h = Some w"
    and "fsStat (filePath w) = Some f"
    and "lastSize w < length (content f)"
    and "length (content f) - lastSize w \<le> kMaxStringLength"
    and "fsRead (filePath w) = Some f'" and "readable f'"
    and "length (content f) \<le> length (content f')"
  shows "\<exists>st' newContent.
           notify fsStat fsRead Change h st = (None, st') \<and>
           toStringUtf8 (take (length (content f) - lastSize w) (drop (lastSize w) (content f'))) =
             Inr newContent \<and>
           length (take (length (content f) - lastSize w) (drop (lastSize w) (content f'))) =
             length (content f) - lastSize w \<and>
           channel st' = channel st @ [Append newContent] \<and>
           ((\<forall>b \<in> set (take (length (content f) - lastSize w) (drop (lastSize w) (content f'))).
               of_char b < (128::nat)) \<longrightarrow>
            newContent =
              map of_char (take (length (content f) - lastSize w) (drop (lastSize w) (content f'))) \<and>
            length newContent = length (content f) - lastSize w) \<and>
           calls st' = calls st @
             [StatSync (filePath w), OpenSync (filePath w),
              ReadSync (filePath w) (int (length (content f) - lastSize w)) (lastSize w),
              CloseSync (filePath w)] \<and>
           map_of (watchers st') h = Some (w\<lparr>lastSize := length (content f)\<rparr>) \<and>
           (\<forall>k. k \<noteq> h \<longrightarrow> map_of (watchers st') k = map_of (watchers st) k) \<and>
           tailWatchers st' = tailWatchers st"
  using assms by (rule notify_grown)

theorem append_emits_decoded_new_bytes_witness:
  "map_of (watchers tailingAppLog) 0 = Some \<lparr>filePath = ''app.log'', lastSize = 4\<rparr> \<and>
   filesWith ''boot ok'' ''app.log'' = Some \<lparr>content = ''boot ok'', readable = True\<rparr> \<and>
   (4::nat) < length ''boot ok'' \<and> length ''boot ok'' - 4 \<le> kMaxStringLength \<and>
   filesWith ''boot ok, up'' ''app.log'' = Some \<lparr>content = ''boot ok, up'', readable = True\<rparr> \<and>
   length ''boot ok'' \<le> length ''boot ok, up'' \<and>
   (\<exists>st'. notify (filesWith ''boot ok'') (filesWith ''boot ok, up'') Change 0 tailingAppLog =
        (None, st') \<and>
      channel st' = channel tailingAppLog @ [Append [32, 111, 107]] \<and>
      calls st' = calls tailingAppLog @
        [StatSync ''app.log'', OpenSync ''app.log'', ReadSync ''app.log'' 3 4, CloseSync ''app.log''] \<and>
      map_of (watchers st') 0 = Some \<lparr>filePath = ''app.log'', lastSize = 7\<rparr>)"
proof -
  let ?w = "\<lparr>filePath = ''app.log'', lastSize = 4\<rparr>"
  let ?f = "\<lparr>content = ''boot ok'', readable = True\<rparr>"
  let ?f' = "\<lparr>content = ''boot ok, up'', readable = True\<rparr>"
  have h1: "map_of (watchers tailingAppLog) 0 = Some ?w" by (simp add: tailingAppLog_eq)
  have h2: "filesWith ''boot ok'' (filePath ?w) = Some ?f" by (simp add: filesWith_def)
  have h3: "lastSize ?w < length (content ?f)" by simp
  have h4: "length (content ?f) - lastSize ?w \<le> kMaxStringLength"
    by (simp add: kMaxStringLength_def)
  have h5: "filesWith ''boot ok, up'' (filePath ?w) = Some ?f'" by (simp add: filesWith_def)
  have h6: "readable ?f'" by simp
  have h7: "length (content ?f) \<le> length (content ?f')" by simp
  from append_emits_decoded_new_bytes
    [where st = tailingAppLog and h = 0 and w = ?w and fsStat = "filesWith ''boot ok''"
       and f = ?f and fsRead = "filesWith ''boot ok, up''" and f' = ?f',
      OF h1 h2 h3 h4 h5 h6 h7]
  obtain st' newContent
    where "notify (filesWith ''boot ok'') (filesWith ''boot ok, up'') Change 0 tailingAppLog =
             (None, st')"
      and "channel st' = channel tailingAppLog @ [Append newContent]"
      and "(\<forall>b \<in> set '' ok''. of_char b < (128::nat)) \<longrightarrow> newContent = map of_char '' ok''"
      and "calls st' = calls tailingAppLog @
             [StatSync ''app.log'', OpenSync ''app.log'', ReadSync ''app.log'' 3 4,
              CloseSync ''app.log'']"
      and "map_of (watchers st') 0 = Some \<lparr>filePath = ''app.log'', lastSize = 7\<rparr>"
    by (auto simp: eval_nat_numeral)
  then show ?thesis using h1 h2 h4 h5 by (auto simp: eval_nat_numeral)
qed

text \<open>
  Claim C5 says that, after a truncation, an append of \<^verbatim>\<open>M\<close> bytes yields an \<^verbatim>\<open>Appended\<close>
  of length exactly \<^verbatim>\<open>M\<close>. After the file is cut to two bytes, three new bytes (the letter
  u-umlaut and the first byte of a character not yet complete) are appended as the two
  code units U+00FC and U+FFFD.
\<close>

theorem append_after_truncation_is_decoded_text:
  "length uUmlautAndHalf = 3 \<and>
   notify (filesWith ''bo'') (filesWith ''bo'') Change 0 tailingAppLog =
     (None,
      \<lparr>tailWatchers = [(''app.log'', 0)],
       watchers = [(0, \<lparr>filePath = ''app.log'', lastSize = 2\<rparr>)],
       nextHandle = 1,
       channel = [Clear, TailingHeader ''app.log'', Show, InfoTailing ''app.log'',
                  TruncatedNotice],
       calls = [StatSync ''app.log'', Watch ''app.log'', StatSync ''app.log'']\<rparr>) \<and>
   notify (filesWith (''bo'' @ uUmlautAndHalf)) (filesWith (''bo'' @ uUmlautAndHalf)) Change 0
       (snd (notify (filesWith ''bo'') (filesWith ''bo'') Change 0 tailingAppLog)) =
     (None,
      \<lparr>tailWatchers = [(''app.log'', 0)],
       watchers = [(0, \<lparr>filePath = ''app.log'', lastSize = 5\<rparr>)],
       nextHandle = 1,
       channel = [Clear, TailingHeader ''app.log'', Show, InfoTailing ''app.log'',
                  TruncatedNotice, Append [0xFC, 0xFFFD]],
       calls = [StatSync ''app.log'', Watch ''app.log'', StatSync ''app.log'',
                StatSync ''app.log'', OpenSync ''app.log'', ReadSync ''app.log'' 3 2,
                CloseSync ''app.log'']\<rparr>)"
  by (simp add: tailingAppLog_eq notify_def onEvent_def Let_def statSync_def openSync_def
        bufferAlloc_def kMaxLength_def readSync_def toInt32_def toStringUtf8_def
        kMaxStringLength_def utf8Step_def leadByte_def utf16_def called_def emit_def
        filesWith_def uUmlautAndHalf_def)

text \<open>
  Claim C5, as the code has it: a change notification that finds the file shorter than the
  tracked offset emits exactly one truncation notice, makes no call but the \<^verbatim>\<open>statSync\<close>
  (so no read of any length), and resets the offset to the new size. When the file then
  grows by \<^verbatim>\<open>m\<close> bytes, no more than the longest string, and can be opened and read, the
  next notification appends the UTF-8 decoding of exactly those \<^verbatim>\<open>m\<close> bytes, read at the
  new offset (for ASCII bytes \<^verbatim>\<open>m\<close> characters, the bytes themselves), and nothing of
  what the file held before the truncation.
\<close>

theorem truncation_resets_offset:
  assumes "map_of (watchers st) h = Some w"
    and "fsStat (filePath w) = Some f"
    and "length (content f) < lastSize w"
  shows "\<exists>st1. notify fsStat fsRead Change h st = (None, st1) \<and>
           channel st1 = channel st @ [TruncatedNotice] \<and>
           calls st1 = calls st @ [StatSync (filePath w)] \<and>
           map_of (watchers st1) h = Some (w\<lparr>lastSize := length (content f)\<rparr>) \<and>
           (\<forall>fsStat' fsRead' f' f'' m.
                fsStat' (filePath w) = Some f' \<and> 0 < m \<and> m \<le> kMaxStringLength \<and>
                length (content f') = length (content f) + m \<and>
                fsRead' (filePath w) = Some f'' \<and> readable f'' \<and>
                length (content f') \<le> length (content f'') \<longrightarrow>
              (\<exists>st2 newContent.
                 notify fsStat' fsRead' Change h st1 = (None, st2) \<and>
                 toStringUtf8 (take m (drop (length (content f)) (content f''))) = Inr newContent \<and>
                 length (take m (drop (length (content f)) (content f''))) = m \<and>
                 channel st2 = channel st1 @ [Append newContent] \<and>
                 ((\<forall>b \<in> set (take m (drop (length (content f)) (content f''))).
                     of_char b < (128::nat)) \<longrightarrow>
                  newContent = map of_char (take m (drop (length (content f)) (content f''))) \<and>
                  length newContent = m) \<and>
                 map_of (watchers st2) h = Some (w\<lparr>lastSize := length (content f) + m\<rparr>)))"
proof -
  let ?S = "length (content f)"
  let ?w1 = "w\<lparr>lastSize := ?S\<rparr>"
  let ?st1 = "st\<lparr>watchers := AList.update h ?w1 (watchers st),
                 channel := channel st @ [TruncatedNotice],
                 calls := calls st @ [StatSync (filePath w)]\<rparr>"
  have step1: "notify fsStat fsRead Change h st = (None, ?st1)"
    using notify_open [OF assms(1) onEvent_shrunk [of fsStat w f fsRead, OF assms(2,3)]] by simp
  have look1: "map_of (watchers ?st1) h = Some ?w1" by (simp add: AList.update_conv')
  have later: "\<exists>st2 newContent.
                 notify fsStat' fsRead' Change h ?st1 = (None, st2) \<and>
                 toStringUtf8 (take m (drop ?S (content f''))) = Inr newContent \<and>
                 length (take m (drop ?S (content f''))) = m \<and>
                 channel st2 = channel ?st1 @ [Append newContent] \<and>
                 ((\<forall>b \<in> set (take m (drop ?S (content f''))). of_char b < (128::nat)) \<longrightarrow>
                  newContent = map of_char (take m (drop ?S (content f''))) \<and>
                  length newContent = m) \<and>
                 map_of (watchers st2) h = Some (w\<lparr>lastSize := ?S + m\<rparr>)"
    if a: "fsStat' (filePath w) = Some f' \<and> 0 < m \<and> m \<le> kMaxStringLength \<and>
           length (content f') = ?S + m \<and>
           fsRead' (filePath w) = Some f'' \<and> readable f'' \<and>
           length (content f') \<le> length (content f'')"
    for fsStat' fsRead' f' f'' m
  proof -
    from a have b1: "fsStat' (filePath ?w1) = Some f'"
      and b2: "lastSize ?w1 < length (content f')"
      and b3: "length (content f') - lastSize ?w1 \<le> kMaxStringLength"
      and b4: "fsRead' (filePath ?w1) = Some f''" and b5: "readable f''"
      and b6: "length (content f') \<le> length (content f'')"
      by simp_all
    from notify_grown
        [where st = ?st1 and h = h and w = ?w1 and fsStat = fsStat' and f = f'
           and fsRead = fsRead' and f' = f'', OF look1 b1 b2 b3 b4 b5 b6] a show ?thesis
      by (simp add: AList.update_conv') blast
  qed
  have c1: "channel ?st1 = channel st @ [TruncatedNotice]"
    and c2: "calls ?st1 = calls st @ [StatSync (filePath w)]" by simp_all
  have later': "\<forall>fsStat' fsRead' f' f'' m.
                fsStat' (filePath w) = Some f' \<and> 0 < m \<and> m \<le> kMaxStringLength \<and>
                length (content f') = length (content f) + m \<and>
                fsRead' (filePath w) = Some f'' \<and> readable f'' \<and>
                length (content f') \<le> length (content f'') \<longrightarrow>
              (\<exists>st2 newContent.
                 notify fsStat' fsRead' Change h ?st1 = (None, st2) \<and>
                 toStringUtf8 (take m (drop ?S (content f''))) = Inr newContent \<and>
                 length (take m (drop ?S (content f''))) = m \<and>
                 channel st2 = channel ?st1 @ [Append newContent] \<and>
                 ((\<forall>b \<in> set (take m (drop ?S (content f''))). of_char b < (128::nat)) \<longrightarrow>
                  newContent = map of_char (take m (drop ?S (content f''))) \<and>
                  length newContent = m) \<and>
                 map_of (watchers st2) h = Some (w\<lparr>lastSize := ?S + m\<rparr>))"
    using later by blast
  from step1 c1 c2 look1 later' show ?thesis by blast
qed

theorem truncation_resets_offset_witness:
  "map_of (watchers tailingAppLog) 0 = Some \<lparr>filePath = ''app.log'', lastSize = 4\<rparr> \<and>
   filesWith ''bo'' ''app.log'' = Some \<lparr>content = ''bo'', readable = True\<rparr> \<and>
   length ''bo'' < (4::nat) \<and>
   filesWith ''bo new'' ''app.log'' = Some \<lparr>content = ''bo new'', readable = True\<rparr> \<and>
   (4::nat) \<le> kMaxStringLength \<and> length ''bo new'' = length ''bo'' + 4 \<and>
   (\<exists>st1 st2. notify (filesWith ''bo'') noFiles Change 0 tailingAppLog = (None, st1) \<and>
      channel st1 = channel tailingAppLog @ [TruncatedNotice] \<and>
      calls st1 = calls tailingAppLog @ [StatSync ''app.log''] \<and>
      map_of (watchers st1) 0 = Some \<lparr>filePath = ''app.log'', lastSize = 2\<rparr> \<and>
      notify (filesWith ''bo new'') (filesWith ''bo new'') Change 0 st1 = (None, st2) \<and>
      channel st2 = channel st1 @ [Append [32, 110, 101, 119]] \<and>
      map_of (watchers st2) 0 = Some \<lparr>filePath = ''app.log'', lastSize = 6\<rparr>)"
proof -
  let ?w = "\<lparr>filePath = ''app.log'', lastSize = 4\<rparr>"
  let ?f = "\<lparr>content = ''bo'', readable = True\<rparr>"
  let ?f' = "\<lparr>content = ''bo new'', readable = True\<rparr>"
  have h1: "map_of (watchers tailingAppLog) 0 = Some ?w" by (simp add: tailingAppLog_eq)
  have h2: "filesWith ''bo'' (filePath ?w) = Some ?f" by (simp add: filesWith_def)
  have h3: "length (content ?f) < lastSize ?w" by simp
  have k: "(4::nat) \<le> kMaxStringLength" by (simp add: kMaxStringLength_def)
  have h4: "filesWith ''bo new'' (filePath ?w) = Some ?f' \<and> (0::nat) < 4 \<and>
              (4::nat) \<le> kMaxStringLength \<and>
              length (content ?f') = length (content ?f) + 4 \<and>
              filesWith ''bo new'' (filePath ?w) = Some ?f' \<and> readable ?f' \<and>
              length (content ?f') \<le> length (content ?f')"
    using k by (simp add: filesWith_def)
  have asc: "\<forall>b \<in> set '' new''. of_char b < (128::nat)" by simp
  from truncation_resets_offset
    [where st = tailingAppLog and h = 0 and w = ?w and fsStat = "filesWith ''bo''" and f = ?f
       and fsRead = noFiles, OF h1 h2 h3]
  obtain st1 where s1: "notify (filesWith ''bo'') noFiles Change 0 tailingAppLog = (None, st1)"
    and c1: "channel st1 = channel tailingAppLog @ [TruncatedNotice]"
    and k1: "calls st1 = calls tailingAppLog @ [StatSync (filePath ?w)]"
    and w1: "map_of (watchers st1) 0 = Some (?w\<lparr>lastSize := length (content ?f)\<rparr>)"
    and later: "\<forall>fsStat' fsRead' f' f'' m.
                fsStat' (filePath ?w) = Some f' \<and> 0 < m \<and> m \<le> kMaxStringLength \<and>
                length (content f') = length (content ?f) + m \<and>
                fsRead' (filePath ?w) = Some f'' \<and> readable f'' \<and>
                length (content f') \<le> length (content f'') \<longrightarrow>
              (\<exists>st2 newContent.
                 notify fsStat' fsRead' Change 0 st1 = (None, st2) \<and>
                 toStringUtf8 (take m (drop (length (content ?f)) (content f''))) = Inr newContent \<and>
                 length (take m (drop (length (content ?f)) (content f''))) = m \<and>
                 channel st2 = channel st1 @ [Append newContent] \<and>
                 ((\<forall>b \<in> set (take m (drop (length (content ?f)) (content f''))).
                     of_char b < (128::nat)) \<longrightarrow>
                  newContent = map of_char (take m (drop (length (content ?f)) (content f''))) \<and>
                  length newContent = m) \<and>
                 map_of (watchers st2) 0 = Some (?w\<lparr>lastSize := length (content ?f) + m\<rparr>))"
    by blast
  from later [rule_format, of "filesWith ''bo new''" ?f' 4 "filesWith ''bo new''" ?f', OF h4]
  obtain st2 newContent
    where s2: "notify (filesWith ''bo new'') (filesWith ''bo new'') Change 0 st1 = (None, st2)"
      and c2: "channel st2 = channel st1 @ [Append newContent]"
      and n2: "(\<forall>b \<in> set (take 4 (drop (length (content ?f)) (content ?f'))).
                  of_char b < (128::nat)) \<longrightarrow>
               newContent = map of_char (take 4 (drop (length (content ?f)) (content ?f'))) \<and>
               length newContent = 4"
      and w2: "map_of (watchers st2) 0 = Some (?w\<lparr>lastSize := length (content ?f) + 4\<rparr>)"
    by blast
  from n2 have "newContent = [32, 110, 101, 119]" by simp
  with s1 c1 k1 w1 s2 c2 w2 h1 h2 h4 asc show ?thesis by (auto simp: eval_nat_numeral)
qed

text \<open>
  Claim C9: a change notification that finds the size equal to the tracked offset emits
  nothing and leaves the offset as it is: only the \<^verbatim>\<open>statSync\<close> call is added to the state.
  In particular this holds for the first notification after the tail command has started
  tailing, when the size is still the one read at the start.
\<close>

theorem unchanged_size_emits_nothing:
  "(\<forall>st h w fsStat fsRead f. map_of (watchers st) h = Some w \<and> fsStat (filePath w) = Some f \<and>
        length (content f) = lastSize w \<longrightarrow>
      notify fsStat fsRead Change h st =
        (None, st\<lparr>calls := calls st @ [StatSync (filePath w)]\<rparr>)) \<and>
   (\<forall>st closeFails watchFull fsStat fsWatch fsStat' fsRead' doc f f' st1.
        reachable st \<and> isLogFile doc \<and> \<not> has (tailWatchers st) (fileName doc) \<and>
        tailFile closeFails watchFull fsStat fsWatch (Some doc) st = (None, st1) \<and>
        fsStat (fileName doc) = Some f \<and>
        fsStat' (fileName doc) = Some f' \<and> length (content f') = length (content f) \<longrightarrow>
      map_of (watchers st1) (nextHandle st) =
        Some \<lparr>filePath = fileName doc, lastSize = length (content f)\<rparr> \<and>
      notify fsStat' fsRead' Change (nextHandle st) st1 =
        (None, st1\<lparr>calls := calls st1 @ [StatSync (fileName doc)]\<rparr>))"
proof (intro conjI allI impI)
  fix st :: state and h w and fsStat fsRead :: filesystem and f
  assume a: "map_of (watchers st) h = Some w \<and> fsStat (filePath w) = Some f \<and>
        length (content f) = lastSize w"
  then have "onEvent fsStat fsRead Change w = (None, w, [], [StatSync (filePath w)])"
    by (auto intro: onEvent_same)
  from notify_open [OF _ this, of st h] a
  show "notify fsStat fsRead Change h st =
          (None, st\<lparr>calls := calls st @ [StatSync (filePath w)]\<rparr>)"
    by (simp add: AList.update_triv)
next
  fix st st1 :: state and closeFails watchFull and fsStat fsWatch fsStat' fsRead' :: filesystem
    and doc f f'
  assume a: "reachable st \<and> isLogFile doc \<and> \<not> has (tailWatchers st) (fileName doc) \<and>
        tailFile closeFails watchFull fsStat fsWatch (Some doc) st = (None, st1) \<and>
        fsStat (fileName doc) = Some f \<and>
        fsStat' (fileName doc) = Some f' \<and> length (content f') = length (content f)"
  let ?w0 = "\<lparr>filePath = fileName doc, lastSize = length (content f)\<rparr>"
  from a have ws: "watchers st1 = watchers st @ [(nextHandle st, ?w0)]"
    by (auto simp: tailFile_def Let_def statSync_def called_def emit_def split: option.splits)
  from a have "sessionInv st" by (auto intro: reachable_sessionInv)
  then have "nextHandle st \<notin> fst ` set (watchers st)" by (rule fresh_handle)
  then have "map_of (watchers st1) = (map_of (watchers st))(nextHandle st \<mapsto> ?w0)"
    unfolding ws by (rule map_of_snoc_fresh)
  then have look: "map_of (watchers st1) (nextHandle st) = Some ?w0" by simp
  from a have "onEvent fsStat' fsRead' Change ?w0 = (None, ?w0, [], [StatSync (filePath ?w0)])"
    by (intro onEvent_same [of _ _ f']) simp_all
  from notify_open [OF look this] look
  have "notify fsStat' fsRead' Change (nextHandle st) st1 =
           (None, st1\<lparr>calls := calls st1 @ [StatSync (fileName doc)]\<rparr>)"
    by (simp add: AList.update_triv)
  with look
  show "map_of (watchers st1) (nextHandle st) = Some ?w0"
    and "notify fsStat' fsRead' Change (nextHandle st) st1 =
           (None, st1\<lparr>calls := calls st1 @ [StatSync (fileName doc)]\<rparr>)"
    by simp_all
qed

theorem unchanged_size_emits_nothing_witness:
  "map_of (watchers tailingAppLog) 0 = Some \<lparr>filePath = ''app.log'', lastSize = 4\<rparr> \<and>
   filesWith ''boot'' ''app.log'' = Some \<lparr>content = ''boot'', readable = True\<rparr> \<and>
   notify (filesWith ''boot'') noFiles Change 0 tailingAppLog =
     (None, tailingAppLog\<lparr>calls := calls tailingAppLog @ [StatSync ''app.log'']\<rparr>) \<and>
   reachable initState \<and> isLogFile appLog \<and> \<not> has (tailWatchers initState) ''app.log'' \<and>
   tailFile noCloseFails False (filesWith ''boot'') (filesWith ''boot'') (Some appLog) initState =
     (None, tailingAppLog) \<and>
   filesWith ''tick'' ''app.log'' = Some \<lparr>content = ''tick'', readable = True\<rparr> \<and>
   map_of (watchers tailingAppLog) (nextHandle initState) =
     Some \<lparr>filePath = ''app.log'', lastSize = 4\<rparr> \<and>
   notify (filesWith ''tick'') noFiles Change (nextHandle initState) tailingAppLog =
     (None, tailingAppLog\<lparr>calls := calls tailingAppLog @ [StatSync ''app.log'']\<rparr>)"
proof -
  let ?w = "\<lparr>filePath = ''app.log'', lastSize = 4\<rparr>"
  let ?f = "\<lparr>content = ''boot'', readable = True\<rparr>"
  let ?f' = "\<lparr>content = ''tick'', readable = True\<rparr>"
  have h1: "map_of (watchers tailingAppLog) 0 = Some ?w" by (simp add: tailingAppLog_eq)
  have h2: "filesWith ''boot'' ''app.log'' = Some ?f" by (simp add: filesWith_def)
  have h2': "filesWith ''tick'' ''app.log'' = Some ?f'" by (simp add: filesWith_def)
  have a: "map_of (watchers tailingAppLog) 0 = Some ?w \<and>
        filesWith ''boot'' (filePath ?w) = Some ?f \<and> length (content ?f) = lastSize ?w"
    using h1 h2 by simp
  have p1: "notify (filesWith ''boot'') noFiles Change 0 tailingAppLog =
     (None, tailingAppLog\<lparr>calls := calls tailingAppLog @ [StatSync ''app.log'']\<rparr>)"
    using unchanged_size_emits_nothing a by fastforce
  have started: "tailFile noCloseFails False (filesWith ''boot'') (filesWith ''boot'')
                   (Some appLog) initState = (None, tailingAppLog)"
    by (simp add: tailingAppLog_eq tailFile_def Let_def statSync_def called_def emit_def
          example_defs)
  have b: "reachable initState \<and> isLogFile appLog \<and>
        \<not> has (tailWatchers initState) (fileName appLog) \<and>
        tailFile noCloseFails False (filesWith ''boot'') (filesWith ''boot'') (Some appLog)
          initState = (None, tailingAppLog) \<and>
        filesWith ''boot'' (fileName appLog) = Some ?f \<and>
        filesWith ''tick'' (fileName appLog) = Some ?f' \<and>
        length (content ?f') = length (content ?f)"
    using h2 h2' started
    by (simp add: reachable.start appLog_isLogFile) (simp add: example_defs)
  from unchanged_size_emits_nothing b
  have "map_of (watchers tailingAppLog) (nextHandle initState) =
           Some \<lparr>filePath = fileName appLog, lastSize = length (content ?f)\<rparr> \<and>
         notify (filesWith ''tick'') noFiles Change (nextHandle initState) tailingAppLog =
           (None, tailingAppLog\<lparr>calls := calls tailingAppLog @ [StatSync (fileName appLog)]\<rparr>)"
    by blast
  then have p2: "map_of (watchers tailingAppLog) (nextHandle initState) = Some ?w \<and>
      notify (filesWith ''tick'') noFiles Change (nextHandle initState) tailingAppLog =
        (None, tailingAppLog\<lparr>calls := calls tailingAppLog @ [StatSync ''app.log'']\<rparr>)"
    by (simp add: appLog_def eval_nat_numeral)
  from h1 h2 h2' p1 p2 b started show ?thesis by (simp add: appLog_def)
qed

text \<open>
  Claim C3 says that a read that fails stops the session and removes it. Here the file
  of a tailed document is gone when the notification arrives: \<^verbatim>\<open>statSync\<close> throws, and
  the state after it still has the path registered and its watcher open; nothing is shown.
\<close>

theorem deleted_file_keeps_session:
  "notify noFiles noFiles Change 0 tailingAppLog =
     (Some (ENOENT ''app.log''),
      \<lparr>tailWatchers = [(''app.log'', 0)],
       watchers = [(0, \<lparr>filePath = ''app.log'', lastSize = 4\<rparr>)],
       nextHandle = 1,
       channel = [Clear, TailingHeader ''app.log'', Show, InfoTailing ''app.log''],
       calls = [StatSync ''app.log'', Watch ''app.log'', StatSync ''app.log'']\<rparr>)"
  by (simp add: tailingAppLog_eq notify_def onEvent_def Let_def statSync_def called_def emit_def noFiles_def)

text \<open>
  Claim C3, as the code has it: when the file is gone, or has grown and is gone or cannot
  be opened for reading by the time of the read, the change callback throws (\<^verbatim>\<open>ENOENT\<close>
  or \<^verbatim>\<open>EACCES\<close>); the registry, every watcher with its offset (the one notified and all
  others) and the output channel are as before.
\<close>

theorem read_failure_leaves_session:
  assumes "map_of (watchers st) h = Some w"
    and "fsStat (filePath w) = None \<or>
         (\<exists>f. fsStat (filePath w) = Some f \<and> lastSize w < length (content f) \<and>
              (fsRead (filePath w) = None \<or>
               (\<exists>f'. fsRead (filePath w) = Some f' \<and> \<not> readable f')))"
  shows "\<exists>e st'. notify fsStat fsRead Change h st = (Some e, st') \<and>
           (e = ENOENT (filePath w) \<or> e = EACCES (filePath w)) \<and>
           tailWatchers st' = tailWatchers st \<and> watchers st' = watchers st \<and>
           channel st' = channel st \<and> nextHandle st' = nextHandle st"
  using assms(2)
proof (elim disjE exE conjE)
  assume "fsStat (filePath w) = None"
  from notify_open [OF assms(1) onEvent_missing [of fsStat w fsRead, OF this]] assms(1)
  show ?thesis by (simp add: AList.update_triv)
next
  fix f
  assume "fsStat (filePath w) = Some f" "lastSize w < length (content f)"
    "fsRead (filePath w) = None"
  from notify_open [OF assms(1) onEvent_gone_before_open [of fsStat w f fsRead, OF this]] assms(1)
  show ?thesis by (simp add: AList.update_triv)
next
  fix f f'
  assume "fsStat (filePath w) = Some f" "lastSize w < length (content f)"
    "fsRead (filePath w) = Some f'" "\<not> readable f'"
  from notify_open [OF assms(1) onEvent_unreadable [of fsStat w f fsRead f', OF this]] assms(1)
  show ?thesis by (simp add: AList.update_triv)
qed

theorem read_failure_leaves_session_witness:
  "map_of (watchers tailingAppLog) 0 = Some \<lparr>filePath = ''app.log'', lastSize = 4\<rparr> \<and>
   filesWith ''boot ok'' ''app.log'' = Some \<lparr>content = ''boot ok'', readable = True\<rparr> \<and>
   (4::nat) < length ''boot ok'' \<and> noFiles ''app.log'' = None \<and>
   (\<exists>e st'. notify (filesWith ''boot ok'') noFiles Change 0 tailingAppLog = (Some e, st') \<and>
      (e = ENOENT ''app.log'' \<or> e = EACCES ''app.log'') \<and>
      tailWatchers st' = [(''app.log'', 0)] \<and>
      watchers st' = [(0, \<lparr>filePath = ''app.log'', lastSize = 4\<rparr>)] \<and>
      channel st' = channel tailingAppLog \<and> nextHandle st' = 1)"
proof -
  let ?w = "\<lparr>filePath = ''app.log'', lastSize = 4\<rparr>"
  let ?f = "\<lparr>content = ''boot ok'', readable = True\<rparr>"
  have h1: "map_of (watchers tailingAppLog) 0 = Some ?w" by (simp add: tailingAppLog_eq)
  have h2: "filesWith ''boot ok'' ''app.log'' = Some ?f" by (simp add: filesWith_def)
  have h3: "noFiles ''app.log'' = None" by (simp add: noFiles_def)
  from h2 h3 have h4: "filesWith ''boot ok'' (filePath ?w) = None \<or>
      (\<exists>f. filesWith ''boot ok'' (filePath ?w) = Some f \<and> lastSize ?w < length (content f) \<and>
           (noFiles (filePath ?w) = None \<or>
            (\<exists>f'. noFiles (filePath ?w) = Some f' \<and> \<not> readable f')))"
    by simp
  from read_failure_leaves_session
    [where st = tailingAppLog and h = 0 and w = ?w and fsStat = "filesWith ''boot ok''"
       and fsRead = noFiles, OF h1 h4]
    h1 h2 h3 show ?thesis
    by (simp add: tailingAppLog_eq)
qed

section \<open>Properties of the tail command and of teardown\<close>

lemma delete_snoc_fresh:
  "k \<notin> fst ` set al \<Longrightarrow> AList.delete k (al @ [(k, v)]) = al"
  by (induction al) (auto simp: AList.delete_eq)

lemma watch_ok:
  "fsWatch p = Some f \<Longrightarrow> readable f \<Longrightarrow> \<not> watchFull \<Longrightarrow> watch watchFull fsWatch p = None"
  by (simp add: watch_def)

lemma tailFile_start:
  assumes "isLogFile doc" "\<not> has (tailWatchers st) (fileName doc)"
    and "fsStat (fileName doc) = Some f" "watch watchFull fsWatch (fileName doc) = None"
  shows "tailFile closeFails watchFull fsStat fsWatch (Some doc) st =
           (None, st\<lparr>tailWatchers := AList.update (fileName doc) (nextHandle st) (tailWatchers st),
                     watchers := watchers st @
                       [(nextHandle st, \<lparr>filePath = fileName doc, lastSize = length (content f)\<rparr>)],
                     nextHandle := nextHandle st + 1,
                     channel := channel st @
                       [Clear, TailingHeader (fileName doc), Show, InfoTailing (fileName doc)],
                     calls := calls st @ [StatSync (fileName doc), Watch (fileName doc)]\<rparr>)"
  using assms by (simp add: tailFile_def Let_def statSync_def called_def emit_def)

lemma tailFile_start_fails:
  assumes "isLogFile doc" "\<not> has (tailWatchers st) (fileName doc)"
    and "fsStat (fileName doc) = None \<or> watch watchFull fsWatch (fileName doc) \<noteq> None"
  shows "\<exists>e cs. tailFile closeFails watchFull fsStat fsWatch (Some doc) st =
           (Some e, st\<lparr>calls := calls st @ cs\<rparr>)"
proof (cases "fsStat (fileName doc)")
  case None
  with assms(1,2) have "tailFile closeFails watchFull fsStat fsWatch (Some doc) st =
      (Some (ENOENT (fileName doc)), st\<lparr>calls := calls st @ [StatSync (fileName doc)]\<rparr>)"
    by (simp add: tailFile_def Let_def statSync_def called_def)
  then show ?thesis by blast
next
  case (Some f)
  with assms(3) obtain e where "watch watchFull fsWatch (fileName doc) = Some e" by auto
  with Some assms(1,2) have "tailFile closeFails watchFull fsStat fsWatch (Some doc) st =
      (Some e, st\<lparr>calls := calls st @ [StatSync (fileName doc), Watch (fileName doc)]\<rparr>)"
    by (simp add: tailFile_def Let_def statSync_def called_def)
  then show ?thesis by blast
qed

lemma tailFile_stop:
  assumes "isLogFile doc" "map_of (tailWatchers st) (fileName doc) = Some h" "\<not> closeFails h"
  shows "tailFile closeFails watchFull fsStat fsWatch (Some doc) st =
           (None, st\<lparr>tailWatchers := AList.delete (fileName doc) (tailWatchers st),
                     watchers := AList.delete h (watchers st),
                     channel := channel st @ [InfoStopped (fileName doc)],
                     calls := calls st @ [CloseWatcher h]\<rparr>)"
proof -
  from assms(2) have "has (tailWatchers st) (fileName doc)" by (simp add: has_def)
  with assms show ?thesis
    by (simp add: tailFile_def Let_def closeWatcher_def called_def emit_def)
qed

lemma closeEach_all_succeed:
  assumes "\<forall>(p, h) \<in> set l. \<not> closeFails h"
  shows "\<exists>st1. closeEach closeFails l st = (None, st1)"
  using assms
proof (induction l arbitrary: st)
  case Nil
  then show ?case by simp
next
  case (Cons a l)
  obtain p h where a: "a = (p, h)" by (cases a)
  with Cons show ?case by (auto simp: closeWatcher_def)
qed

lemma closeEach_append:
  "closeEach closeFails pre st = (None, st1) \<Longrightarrow>
     closeEach closeFails (pre @ rest) st = closeEach closeFails rest st1"
proof (induction pre arbitrary: st)
  case Nil
  then show ?case by simp
next
  case (Cons a pre)
  obtain p h where a: "a = (p, h)" by (cases a)
  with Cons show ?case by (auto split: sum.splits)
qed

text \<open>
  Claim C7 says that two tail commands pass through Active for every path. For a log
  document whose file does not exist, \<^verbatim>\<open>statSync\<close> throws both times and the path is
  never registered.
\<close>

theorem toggle_on_missing_file_stays_inactive:
  "tailFile noCloseFails False noFiles noFiles (Some appLog) initState =
     (Some (ENOENT ''app.log''),
      \<lparr>tailWatchers = [], watchers = [], nextHandle = 0, channel = [],
       calls = [StatSync ''app.log'']\<rparr>) \<and>
   tailFile noCloseFails False noFiles noFiles (Some appLog)
       (snd (tailFile noCloseFails False noFiles noFiles (Some appLog) initState)) =
     (Some (ENOENT ''app.log''),
      \<lparr>tailWatchers = [], watchers = [], nextHandle = 0, channel = [],
       calls = [StatSync ''app.log'', StatSync ''app.log'']\<rparr>)"
  by (simp add: tailFile_def Let_def statSync_def called_def example_defs)

text \<open>
  Claim C7, as the code has it: from a reachable state in which the path of a log document
  is not registered, when the file exists and can be watched, the tail command registers
  the path; run again (whatever the file system is then, the close succeeding) it removes
  it, and the registry and the open watchers are again what they were. When the file does
  not exist or cannot be watched, the command throws and the registry, the watchers and
  the output channel are as before: the path stays unregistered.
\<close>

theorem toggle_twice_restores_registry:
  assumes "reachable st" and "isLogFile doc"
    and "\<not> has (tailWatchers st) (fileName doc)"
  shows "(\<forall>f f'. fsStat (fileName doc) = Some f \<and> fsWatch (fileName doc) = Some f' \<and>
            readable f' \<and> \<not> watchFull \<and> \<not> closeFails' (nextHandle st) \<longrightarrow>
          (\<exists>st1 st2. tailFile closeFails watchFull fsStat fsWatch (Some doc) st = (None, st1) \<and>
             has (tailWatchers st1) (fileName doc) \<and>
             tailFile closeFails' watchFull' fsStat' fsWatch' (Some doc) st1 = (None, st2) \<and>
             \<not> has (tailWatchers st2) (fileName doc) \<and>
             tailWatchers st2 = tailWatchers st \<and> watchers st2 = watchers st)) \<and>
         (fsStat (fileName doc) = None \<or> fsWatch (fileName doc) = None \<or>
            (\<exists>f'. fsWatch (fileName doc) = Some f' \<and> \<not> readable f') \<or> watchFull \<longrightarrow>
          (\<exists>e st1. tailFile closeFails watchFull fsStat fsWatch (Some doc) st = (Some e, st1) \<and>
             tailWatchers st1 = tailWatchers st \<and> watchers st1 = watchers st \<and>
             channel st1 = channel st))"
proof (intro conjI allI impI)
  fix f f'
  assume a: "fsStat (fileName doc) = Some f \<and> fsWatch (fileName doc) = Some f' \<and>
            readable f' \<and> \<not> watchFull \<and> \<not> closeFails' (nextHandle st)"
  let ?p = "fileName doc" and ?h = "nextHandle st"
  let ?w0 = "\<lparr>filePath = ?p, lastSize = length (content f)\<rparr>"
  let ?st1 = "st\<lparr>tailWatchers := AList.update ?p ?h (tailWatchers st),
                 watchers := watchers st @ [(?h, ?w0)],
                 nextHandle := ?h + 1,
                 channel := channel st @ [Clear, TailingHeader ?p, Show, InfoTailing ?p],
                 calls := calls st @ [StatSync ?p, Watch ?p]\<rparr>"
  let ?st2 = "?st1\<lparr>tailWatchers := AList.delete ?p (tailWatchers ?st1),
                   watchers := AList.delete ?h (watchers ?st1),
                   channel := channel ?st1 @ [InfoStopped ?p],
                   calls := calls ?st1 @ [CloseWatcher ?h]\<rparr>"
  from a have wok: "watch watchFull fsWatch ?p = None" by (simp add: watch_ok)
  from a have fs: "fsStat ?p = Some f" by simp
  have s1: "tailFile closeFails watchFull fsStat fsWatch (Some doc) st = (None, ?st1)"
    using assms(2,3) fs wok by (rule tailFile_start)
  have reg: "map_of (tailWatchers ?st1) ?p = Some ?h" by (simp add: AList.update_conv')
  then have active: "has (tailWatchers ?st1) ?p" by (simp add: has_def)
  from a have nf: "\<not> closeFails' ?h" by simp
  have s2: "tailFile closeFails' watchFull' fsStat' fsWatch' (Some doc) ?st1 = (None, ?st2)"
    using assms(2) reg nf by (rule tailFile_stop)
  from assms(3) have absent: "?p \<notin> fst ` set (tailWatchers st)"
    by (simp add: has_def map_of_eq_None_iff)
  have tw: "tailWatchers ?st2 = tailWatchers st"
    using absent by (simp add: AList.delete_update_same)
  from assms(1) have "sessionInv st" by (rule reachable_sessionInv)
  then have "?h \<notin> fst ` set (watchers st)" by (rule fresh_handle)
  then have ws: "watchers ?st2 = watchers st" by (simp add: delete_snoc_fresh)
  from assms(3) tw have gone: "\<not> has (tailWatchers ?st2) ?p" by simp
  from s1 active s2 gone tw ws
  show "\<exists>st1 st2. tailFile closeFails watchFull fsStat fsWatch (Some doc) st = (None, st1) \<and>
             has (tailWatchers st1) (fileName doc) \<and>
             tailFile closeFails' watchFull' fsStat' fsWatch' (Some doc) st1 = (None, st2) \<and>
             \<not> has (tailWatchers st2) (fileName doc) \<and>
             tailWatchers st2 = tailWatchers st \<and> watchers st2 = watchers st"
    by blast
next
  assume "fsStat (fileName doc) = None \<or> fsWatch (fileName doc) = None \<or>
            (\<exists>f'. fsWatch (fileName doc) = Some f' \<and> \<not> readable f') \<or> watchFull"
  then have "fsStat (fileName doc) = None \<or> watch watchFull fsWatch (fileName doc) \<noteq> None"
    by (auto simp: watch_def split: option.splits)
  from tailFile_start_fails
    [where doc = doc and st = st and fsStat = fsStat and watchFull = watchFull
       and fsWatch = fsWatch and closeFails = closeFails, OF assms(2,3) this]
  obtain e cs where "tailFile closeFails watchFull fsStat fsWatch (Some doc) st =
           (Some e, st\<lparr>calls := calls st @ cs\<rparr>)"
    by blast
  then have "tailFile closeFails watchFull fsStat fsWatch (Some doc) st =
                (Some e, st\<lparr>calls := calls st @ cs\<rparr>) \<and>
             tailWatchers (st\<lparr>calls := calls st @ cs\<rparr>) = tailWatchers st \<and>
             watchers (st\<lparr>calls := calls st @ cs\<rparr>) = watchers st \<and>
             channel (st\<lparr>calls := calls st @ cs\<rparr>) = channel st"
    by simp
  then show "\<exists>e st1. tailFile closeFails watchFull fsStat fsWatch (Some doc) st = (Some e, st1) \<and>
             tailWatchers st1 = tailWatchers st \<and> watchers st1 = watchers st \<and>
             channel st1 = channel st"
    by blast
qed

theorem toggle_twice_restores_registry_witness:
  "reachable initState \<and> isLogFile appLog \<and> \<not> has (tailWatchers initState) (fileName appLog) \<and>
   filesWith ''boot'' (fileName appLog) = Some \<lparr>content = ''boot'', readable = True\<rparr> \<and>
   \<not> noCloseFails (nextHandle initState) \<and>
   (\<exists>st1 st2. tailFile noCloseFails False (filesWith ''boot'') (filesWith ''boot'') (Some appLog)
        initState = (None, st1) \<and>
      has (tailWatchers st1) (fileName appLog) \<and>
      tailFile noCloseFails True noFiles noFiles (Some appLog) st1 = (None, st2) \<and>
      tailWatchers st2 = [] \<and> watchers st2 = []) \<and>
   lockedFiles (fileName appLog) = Some \<lparr>content = ''boot'', readable = False\<rparr> \<and>
   (\<exists>e st1. tailFile noCloseFails False lockedFiles lockedFiles (Some appLog) initState =
        (Some e, st1) \<and>
      tailWatchers st1 = [] \<and> watchers st1 = [] \<and> channel st1 = [])"
proof -
  let ?f = "\<lparr>content = ''boot'', readable = True\<rparr>"
  let ?g = "\<lparr>content = ''boot'', readable = False\<rparr>"
  have h1: "reachable initState" by (rule reachable.start)
  have h2: "isLogFile appLog" by (rule appLog_isLogFile)
  have h3: "\<not> has (tailWatchers initState) (fileName appLog)" by (simp add: example_defs)
  have h4: "filesWith ''boot'' (fileName appLog) = Some ?f" by (simp add: example_defs)
  have h5: "\<not> noCloseFails (nextHandle initState)" by (simp add: noCloseFails_def)
  have h6: "lockedFiles (fileName appLog) = Some ?g" by (simp add: example_defs)
  have a: "filesWith ''boot'' (fileName appLog) = Some ?f \<and>
           filesWith ''boot'' (fileName appLog) = Some ?f \<and> readable ?f \<and> \<not> False \<and>
           \<not> noCloseFails (nextHandle initState)"
    using h4 h5 by simp
  from toggle_twice_restores_registry
    [where st = initState and doc = appLog and fsStat = "filesWith ''boot''"
       and fsWatch = "filesWith ''boot''" and watchFull = False and closeFails = noCloseFails
       and closeFails' = noCloseFails and watchFull' = True and fsStat' = noFiles
       and fsWatch' = noFiles, OF h1 h2 h3] a
  have p1: "\<exists>st1 st2. tailFile noCloseFails False (filesWith ''boot'') (filesWith ''boot'')
        (Some appLog) initState = (None, st1) \<and>
      has (tailWatchers st1) (fileName appLog) \<and>
      tailFile noCloseFails True noFiles noFiles (Some appLog) st1 = (None, st2) \<and>
      \<not> has (tailWatchers st2) (fileName appLog) \<and>
      tailWatchers st2 = tailWatchers initState \<and> watchers st2 = watchers initState"
    by blast
  have b: "lockedFiles (fileName appLog) = None \<or> lockedFiles (fileName appLog) = None \<or>
           (\<exists>f'. lockedFiles (fileName appLog) = Some f' \<and> \<not> readable f') \<or> False"
    using h6 by simp
  from toggle_twice_restores_registry
    [where st = initState and doc = appLog and fsStat = lockedFiles and fsWatch = lockedFiles
       and watchFull = False and closeFails = noCloseFails, OF h1 h2 h3] b
  have p2: "\<exists>e st1. tailFile noCloseFails False lockedFiles lockedFiles (Some appLog) initState =
        (Some e, st1) \<and>
      tailWatchers st1 = tailWatchers initState \<and> watchers st1 = watchers initState \<and>
      channel st1 = channel initState"
    by blast
  from p1 p2 h1 h2 h3 h4 h5 h6 show ?thesis by (simp add: initState_def) blast
qed



text \<open>
  Claim C10 says that teardown goes on when a close fails. With two documents tailed and
  the close of the first handle failing, \<^verbatim>\<open>deactivate\<close> throws and leaves the state as it
  was: both paths registered, the second watcher still open.
\<close>

theorem failed_close_aborts_teardown:
  "deactivate (closeFailsOn 0) tailingBoth = (Some (CloseError 0), tailingBoth) \<and>
   tailWatchers tailingBoth = [(''app.log'', 0), (''err.log'', 1)] \<and>
   map_of (watchers tailingBoth) 1 = Some \<lparr>filePath = ''err.log'', lastSize = 0\<rparr>"
  by (simp add: tailingBoth_eq deactivate_def closeWatcher_def closeFailsOn_def)

text \<open>
  Claim C10, as the code has it: when no close fails, \<^verbatim>\<open>deactivate\<close> closes the handles of
  the registry in its order, which leaves no watcher open while the registry is still
  full, and then clears the registry. When the close of a handle fails after the closes
  before it in the registry succeeded, \<^verbatim>\<open>deactivate\<close> throws that failure: exactly the
  handles before it have been closed, that handle and every handle after it are as they
  were (a watcher that was open is still open), and the registry is not cleared.
\<close>

theorem deactivate_closes_then_clears:
  assumes "reachable st"
  shows "((\<forall>(p, h) \<in> set (tailWatchers st). \<not> closeFails h) \<longrightarrow>
           (\<exists>st1. closeEach closeFails (tailWatchers st) st = (None, st1) \<and>
              watchers st1 = [] \<and> tailWatchers st1 = tailWatchers st \<and>
              calls st1 = calls st @ map (\<lambda>(p, h). CloseWatcher h) (tailWatchers st) \<and>
              deactivate closeFails st = (None, st1\<lparr>tailWatchers := []\<rparr>))) \<and>
         (\<forall>pre p h post.
            tailWatchers st = pre @ (p, h) # post \<and>
            (\<forall>(q, k) \<in> set pre. \<not> closeFails k) \<and> closeFails h \<longrightarrow>
           (\<exists>st1. deactivate closeFails st = (Some (CloseError h), st1) \<and>
              tailWatchers st1 = tailWatchers st \<and>
              calls st1 = calls st @ map (\<lambda>(q, k). CloseWatcher k) pre \<and>
              (\<forall>k. map_of (watchers st1) k =
                     (if k \<in> snd ` set pre then None else map_of (watchers st) k)) \<and>
              channel st1 = channel st))"
proof (intro conjI allI impI)
  assume ok: "\<forall>(p, h) \<in> set (tailWatchers st). \<not> closeFails h"
  then obtain st1 where d: "closeEach closeFails (tailWatchers st) st = (None, st1)"
    using closeEach_all_succeed by blast
  note fin = closeEach_done [OF d]
  from assms have inv: "sessionInv st" by (rule reachable_sessionInv)
  have "map_of (watchers st1) h = None" for h
  proof (cases "map_of (watchers st) h")
    case None
    with fin show ?thesis by auto
  next
    case (Some w)
    with inv have "map_of (tailWatchers st) (filePath w) = Some h" by (rule sessionInv_registered)
    then have "h \<in> snd ` set (tailWatchers st)" by (force dest: map_of_SomeD)
    with fin show ?thesis by auto
  qed
  then have "watchers st1 = []" by (metis map_of_eq_empty_iff)
  with d fin
  show "\<exists>st1. closeEach closeFails (tailWatchers st) st = (None, st1) \<and>
              watchers st1 = [] \<and> tailWatchers st1 = tailWatchers st \<and>
              calls st1 = calls st @ map (\<lambda>(p, h). CloseWatcher h) (tailWatchers st) \<and>
              deactivate closeFails st = (None, st1\<lparr>tailWatchers := []\<rparr>)"
    by (simp add: deactivate_def)
next
  fix pre p h post
  assume a: "tailWatchers st = pre @ (p, h) # post \<and>
            (\<forall>(q, k) \<in> set pre. \<not> closeFails k) \<and> closeFails h"
  then obtain st1 where d: "closeEach closeFails pre st = (None, st1)"
    using closeEach_all_succeed by blast
  note fin = closeEach_done [OF d]
  from a have "closeEach closeFails ((p, h) # post) st1 = (Some (CloseError h), st1)"
    by (simp add: closeWatcher_def)
  with closeEach_append [OF d, of "(p, h) # post"] a
  have "closeEach closeFails (tailWatchers st) st = (Some (CloseError h), st1)" by simp
  then have "deactivate closeFails st = (Some (CloseError h), st1)"
    by (simp add: deactivate_def)
  with fin
  show "\<exists>st1. deactivate closeFails st = (Some (CloseError h), st1) \<and>
              tailWatchers st1 = tailWatchers st \<and>
              calls st1 = calls st @ map (\<lambda>(q, k). CloseWatcher k) pre \<and>
              (\<forall>k. map_of (watchers st1) k =
                     (if k \<in> snd ` set pre then None else map_of (watchers st) k)) \<and>
              channel st1 = channel st"
    by blast
qed

theorem deactivate_closes_then_clears_witness:
  "reachable tailingBoth \<and>
   \<not> noCloseFails 0 \<and> \<not> noCloseFails 1 \<and>
   deactivate noCloseFails tailingBoth =
     (None, tailingBoth\<lparr>tailWatchers := [], watchers := [],
                         calls := calls tailingBoth @ [CloseWatcher 0, CloseWatcher 1]\<rparr>) \<and>
   tailWatchers tailingBoth = [] @ (''app.log'', 0) # [(''err.log'', 1)] \<and> closeFailsOn 0 0 \<and>
   (\<exists>st1. deactivate (closeFailsOn 0) tailingBoth = (Some (CloseError 0), st1) \<and>
      tailWatchers st1 = [(''app.log'', 0), (''err.log'', 1)] \<and>
      calls st1 = calls tailingBoth \<and>
      map_of (watchers st1) 0 = Some \<lparr>filePath = ''app.log'', lastSize = 4\<rparr> \<and>
      map_of (watchers st1) 1 = Some \<lparr>filePath = ''err.log'', lastSize = 0\<rparr>) \<and>
   tailWatchers tailingBoth = [(''app.log'', 0)] @ (''err.log'', 1) # [] \<and>
   \<not> closeFailsOn 1 0 \<and> closeFailsOn 1 1 \<and>
   (\<exists>st1. deactivate (closeFailsOn 1) tailingBoth = (Some (CloseError 1), st1) \<and>
      tailWatchers st1 = [(''app.log'', 0), (''err.log'', 1)] \<and>
      calls st1 = calls tailingBoth @ [CloseWatcher 0] \<and>
      map_of (watchers st1) 0 = None \<and>
      map_of (watchers st1) 1 = Some \<lparr>filePath = ''err.log'', lastSize = 0\<rparr>)"
proof -
  have h1: "reachable tailingBoth" by (rule reachable_tailingBoth)
  have h2: "\<forall>(p, h) \<in> set (tailWatchers tailingBoth). \<not> noCloseFails h"
    by (simp add: noCloseFails_def)
  have tw: "tailWatchers tailingBoth = [(''app.log'', 0), (''err.log'', 1)]"
    by (simp add: tailingBoth_eq)
  have w0: "map_of (watchers tailingBoth) 0 = Some \<lparr>filePath = ''app.log'', lastSize = 4\<rparr>"
    and w1: "map_of (watchers tailingBoth) 1 = Some \<lparr>filePath = ''err.log'', lastSize = 0\<rparr>"
    by (simp_all add: tailingBoth_eq)
  have h3: "tailWatchers tailingBoth = [] @ (''app.log'', 0) # [(''err.log'', 1)] \<and>
            (\<forall>(q, k) \<in> set []. \<not> closeFailsOn 0 k) \<and> closeFailsOn 0 0"
    by (simp add: tw closeFailsOn_def)
  have h4: "tailWatchers tailingBoth = [(''app.log'', 0)] @ (''err.log'', 1) # [] \<and>
            (\<forall>(q, k) \<in> set [(''app.log'', 0::nat)]. \<not> closeFailsOn 1 k) \<and> closeFailsOn 1 1"
    by (simp add: tw closeFailsOn_def)
  from deactivate_closes_then_clears [OF h1, of noCloseFails] h2
  obtain st1 where "watchers st1 = []" "tailWatchers st1 = tailWatchers tailingBoth"
    and "calls st1 = calls tailingBoth @ map (\<lambda>(p, h). CloseWatcher h) (tailWatchers tailingBoth)"
    and "deactivate noCloseFails tailingBoth = (None, st1\<lparr>tailWatchers := []\<rparr>)"
    by blast
  moreover have p1: "deactivate noCloseFails tailingBoth =
     (None, tailingBoth\<lparr>tailWatchers := [], watchers := [],
                         calls := calls tailingBoth @ [CloseWatcher 0, CloseWatcher 1]\<rparr>)"
    by (simp add: tailingBoth_eq deactivate_def closeWatcher_def called_def noCloseFails_def)
  moreover from deactivate_closes_then_clears
    [OF h1, of "closeFailsOn 0", THEN conjunct2, rule_format,
      of "[]" "''app.log''" 0 "[(''err.log'', 1)]", OF h3]
  obtain sa where "deactivate (closeFailsOn 0) tailingBoth = (Some (CloseError 0), sa)"
    and "tailWatchers sa = tailWatchers tailingBoth"
    and "calls sa = calls tailingBoth @ map (\<lambda>(q, k). CloseWatcher k) ([] :: (path \<times> nat) list)"
    and "\<forall>k. map_of (watchers sa) k =
           (if k \<in> snd ` set ([] :: (path \<times> nat) list) then None
            else map_of (watchers tailingBoth) k)"
    by blast
  then have p2: "\<exists>st1. deactivate (closeFailsOn 0) tailingBoth = (Some (CloseError 0), st1) \<and>
      tailWatchers st1 = [(''app.log'', 0), (''err.log'', 1)] \<and>
      calls st1 = calls tailingBoth \<and>
      map_of (watchers st1) 0 = Some \<lparr>filePath = ''app.log'', lastSize = 4\<rparr> \<and>
      map_of (watchers st1) 1 = Some \<lparr>filePath = ''err.log'', lastSize = 0\<rparr>"
    using tw w0 w1 by simp
  from deactivate_closes_then_clears
    [OF h1, of "closeFailsOn 1", THEN conjunct2, rule_format,
      of "[(''app.log'', 0)]" "''err.log''" 1 "[]", OF h4]
  obtain sb where "deactivate (closeFailsOn 1) tailingBoth = (Some (CloseError 1), sb)"
    and "tailWatchers sb = tailWatchers tailingBoth"
    and "calls sb = calls tailingBoth @ map (\<lambda>(q, k). CloseWatcher k) [(''app.log'', 0)]"
    and "\<forall>k. map_of (watchers sb) k =
           (if k \<in> snd ` set [(''app.log'', 0::nat)] then None
            else map_of (watchers tailingBoth) k)"
    by blast
  then have p3: "\<exists>st1. deactivate (closeFailsOn 1) tailingBoth = (Some (CloseError 1), st1) \<and>
      tailWatchers st1 = [(''app.log'', 0), (''err.log'', 1)] \<and>
      calls st1 = calls tailingBoth @ [CloseWatcher 0] \<and>
      map_of (watchers st1) 0 = None \<and>
      map_of (watchers st1) 1 = Some \<lparr>filePath = ''err.log'', lastSize = 0\<rparr>"
    using tw w0 w1 by simp
  from p1 p2 p3 h1 tw show ?thesis by (simp add: noCloseFails_def closeFailsOn_def)
qed

end
